theory Spec2Isabelle
  imports Main "HOL-Library.Sublist"
begin

section \<open>makeIndex.js: the index of the docs directory\<close>

text \<open>
  The program walks the directory \<^verbatim>\<open>docs\<close> under the current working directory,
  collects the matching files, sorts them with a natural-sort comparator and writes
  \<^verbatim>\<open>docs/index.html\<close>. It runs on Node.js, on a POSIX system (\<^verbatim>\<open>path.sep\<close> is \<^verbatim>\<open>/\<close>).

  A JavaScript string is a sequence of UTF-16 code units. The model is over \<^typ>\<open>string\<close>:
  a \<^typ>\<open>char\<close> is the code unit of that value, so the strings of the model are the
  JavaScript strings over U+0000 .. U+00FF, compared by code unit as JavaScript does.
\<close>

subsection \<open>Strings\<close>

definition code_unit :: "char \<Rightarrow> nat" where
  "code_unit c = of_char c"

text \<open>\<^verbatim>\<open>String.prototype.endsWith\<close>.\<close>

definition endsWith :: "string \<Rightarrow> string \<Rightarrow> bool" where
  "endsWith s searchString =
     (length searchString \<le> length s
      \<and> drop (length s - length searchString) s = searchString)"

text \<open>\<^verbatim>\<open>String.prototype.split\<close> with a one-character separator, and \<^verbatim>\<open>Array.prototype.join\<close>.\<close>

fun split :: "char \<Rightarrow> string \<Rightarrow> string list" where
  "split sep [] = [[]]"
| "split sep (c # cs) =
     (if c = sep then [] # split sep cs
      else (case split sep cs of
              [] \<Rightarrow> [[c]]
            | p # ps \<Rightarrow> (c # p) # ps))"

fun join :: "string \<Rightarrow> string list \<Rightarrow> string" where
  "join sep [] = []"
| "join sep [p] = p"
| "join sep (p # q # ps) = p @ sep @ join sep (q # ps)"

subsection \<open>Paths (the POSIX flavour of Node's \<^verbatim>\<open>path\<close> module)\<close>

definition path_sep :: char where
  "path_sep = CHR ''/''"

text \<open>
  The components of a path: the pieces between separators, empty pieces dropped.
  \<open>normalize_parts\<close> resolves \<^verbatim>\<open>.\<close> and \<^verbatim>\<open>..\<close> against the components kept so far
  (given in reverse), as \<^verbatim>\<open>path.resolve\<close> does for an absolute path: \<^verbatim>\<open>..\<close> at the root
  stays at the root.
\<close>

definition parts :: "string \<Rightarrow> string list" where
  "parts p = filter (\<lambda>s. s \<noteq> []) (split path_sep p)"

fun normalize_parts :: "string list \<Rightarrow> string list \<Rightarrow> string list" where
  "normalize_parts acc [] = rev acc"
| "normalize_parts acc (p # ps) =
     (if p = ''.'' then normalize_parts acc ps
      else if p = ''..'' then normalize_parts (tl acc) ps
      else normalize_parts (p # acc) ps)"

definition isAbsolute :: "string \<Rightarrow> bool" where
  "isAbsolute p = (case p of [] \<Rightarrow> False | c # _ \<Rightarrow> c = path_sep)"

text \<open>
  \<^verbatim>\<open>path.resolve(p)\<close> as the list of components of the absolute, normalized path:
  a relative path is resolved against the working directory.
\<close>

definition resolve_parts :: "string \<Rightarrow> string \<Rightarrow> string list" where
  "resolve_parts cwd p =
     normalize_parts [] (if isAbsolute p then parts p else parts cwd @ parts p)"

definition from_parts :: "string list \<Rightarrow> string" where
  "from_parts ps = path_sep # join [path_sep] ps"

text \<open>
  \<^verbatim>\<open>path.join(dir, name)\<close> for an absolute \<open>dir\<close>: the two are joined with a separator
  and the result is normalized.
\<close>

definition path_join :: "string \<Rightarrow> string \<Rightarrow> string" where
  "path_join dir name = from_parts (normalize_parts [] (parts (dir @ [path_sep] @ name)))"

fun strip_common :: "string list \<Rightarrow> string list \<Rightarrow> string list \<times> string list" where
  "strip_common (a # as) (b # bs) = (if a = b then strip_common as bs else (a # as, b # bs))"
| "strip_common as bs = (as, bs)"

text \<open>
  \<^verbatim>\<open>path.relative(from, to)\<close>: both are resolved, the common leading components are
  dropped, every remaining component of \<open>from\<close> becomes \<^verbatim>\<open>..\<close>, and the rest of \<open>to\<close>
  follows. Equal paths give the empty string.
\<close>

definition path_relative :: "string \<Rightarrow> string \<Rightarrow> string \<Rightarrow> string" where
  "path_relative cwd from to =
     (case strip_common (resolve_parts cwd from) (resolve_parts cwd to) of
        (up, down) \<Rightarrow> join [path_sep] (replicate (length up) ''..'' @ down))"

text \<open>\<^verbatim>\<open>path.basename(p)\<close>: the last component, the empty string when there is none.\<close>

definition basename :: "string \<Rightarrow> string" where
  "basename p = (case rev (parts p) of [] \<Rightarrow> [] | b # _ \<Rightarrow> b)"

subsection \<open>The file system under the docs directory\<close>

text \<open>
  What \<^verbatim>\<open>fs.promises.readdir(dir, { withFileTypes: true })\<close> sees: a directory is the
  list of its entries in the order \<^verbatim>\<open>readdir\<close> returns them, each a name and what the
  name stands for. \<open>Special\<close> is an entry that is neither a regular file nor a
  directory (a symbolic link, a socket, a FIFO, a device): \<^verbatim>\<open>isFile()\<close> and
  \<^verbatim>\<open>isDirectory()\<close> are both false for it. \<open>Unreadable\<close> is a directory whose listing
  fails.
\<close>

datatype fsnode =
    RegularFile
  | Special
  | Directory "(string \<times> fsnode) list"
  | Unreadable

datatype error =
    ENOTDIR string
  | EACCES string
  | TypeError
  | WriteFailed

fun isDirectory :: "fsnode \<Rightarrow> bool" where
  "isDirectory (Directory _) = True"
| "isDirectory Unreadable = True"
| "isDirectory _ = False"

fun isFile :: "fsnode \<Rightarrow> bool" where
  "isFile RegularFile = True"
| "isFile _ = False"

text \<open>The condition of line 18, with the precedence JavaScript gives it: \<^verbatim>\<open>&&\<close> binds tighter than \<^verbatim>\<open>||\<close>.\<close>

definition matches :: "string \<Rightarrow> fsnode \<Rightarrow> bool" where
  "matches name node = ((isFile node \<and> endsWith name ''.pdf'') \<or> endsWith name ''jpg'')"

text \<open>
  \<open>walkForPdfs\<close>: the listing of \<open>dir\<close> is read (which fails when \<open>dir\<close> is not a
  readable directory), and the entries are visited in order by \<open>walk_entries\<close>, the
  \<^verbatim>\<open>for\<close> loop. An error of a recursive call leaves the loop and the function.
\<close>

function walkForPdfs :: "string \<Rightarrow> fsnode \<Rightarrow> error + string list"
  and walk_entries :: "string \<Rightarrow> (string \<times> fsnode) list \<Rightarrow> error + string list"
where
  "walkForPdfs dir (Directory entries) = walk_entries dir entries"
| "walkForPdfs dir Unreadable = Inl (EACCES dir)"
| "walkForPdfs dir RegularFile = Inl (ENOTDIR dir)"
| "walkForPdfs dir Special = Inl (ENOTDIR dir)"
| "walk_entries dir [] = Inr []"
| "walk_entries dir ((name, node) # rest) =
     (let full = path_join dir name in
      if isDirectory node then
        (case walkForPdfs full node of
           Inl e \<Rightarrow> Inl e
         | Inr sub \<Rightarrow> (case walk_entries dir rest of
                        Inl e \<Rightarrow> Inl e
                      | Inr results \<Rightarrow> Inr (sub @ results)))
      else if matches name node then
        (case walk_entries dir rest of
           Inl e \<Rightarrow> Inl e
         | Inr results \<Rightarrow> Inr (full # results))
      else walk_entries dir rest)"
  by pat_completeness auto
termination
  by (relation "measure (\<lambda>x. case x of
        Inl (_, node) \<Rightarrow> 2 * size node
      | Inr (_, es) \<Rightarrow> 2 * size_list (size_prod (\<lambda>_. 0) size) es + 1)") auto


text \<open>
  The entries anywhere under a directory, each with its full path, its name and what it
  is, in traversal order (an entry before what is below it).
\<close>

function entries_under :: "string \<Rightarrow> fsnode \<Rightarrow> (string \<times> string \<times> fsnode) list"
  and entries_list :: "string \<Rightarrow> (string \<times> fsnode) list \<Rightarrow> (string \<times> string \<times> fsnode) list"
where
  "entries_under dir (Directory entries) = entries_list dir entries"
| "entries_under dir Unreadable = []"
| "entries_under dir RegularFile = []"
| "entries_under dir Special = []"
| "entries_list dir [] = []"
| "entries_list dir ((name, node) # rest) =
     (path_join dir name, name, node)
       # entries_under (path_join dir name) node @ entries_list dir rest"
  by pat_completeness auto
termination
  by (relation "measure (\<lambda>x. case x of
        Inl (_, node) \<Rightarrow> 2 * size node
      | Inr (_, es) \<Rightarrow> 2 * size_list (size_prod (\<lambda>_. 0) size) es + 1)") auto

text \<open>
  The result the specification describes: the regular files whose name ends with
  \<^verbatim>\<open>.pdf\<close>, and every entry whose name ends with \<^verbatim>\<open>jpg\<close>, whatever it is.
\<close>

definition claimed_paths :: "string \<Rightarrow> fsnode \<Rightarrow> string list" where
  "claimed_paths dir tree =
     map fst (filter (\<lambda>(full, name, node).
        (endsWith name ''.pdf'' \<and> isFile node) \<or> endsWith name ''jpg'')
      (entries_under dir tree))"

text \<open>The same, without the entries that are directories.\<close>

definition found_paths :: "string \<Rightarrow> fsnode \<Rightarrow> string list" where
  "found_paths dir tree =
     map fst (filter (\<lambda>(full, name, node). \<not> isDirectory node \<and>
        ((endsWith name ''.pdf'' \<and> isFile node) \<or> endsWith name ''jpg''))
      (entries_under dir tree))"

subsection \<open>Numbers\<close>

text \<open>
  The numbers a token can hold. \<^verbatim>\<open>Number(t)\<close> of a run of digits is the double nearest
  to the decimal value, a natural number or \<^verbatim>\<open>Infinity\<close>; of a run without digits it
  is \<^verbatim>\<open>NaN\<close>, or \<^verbatim>\<open>0\<close> (white space only), or plus or minus \<^verbatim>\<open>Infinity\<close> (the word, with
  an optional sign, between white space).
\<close>

datatype jsnum = Finite nat | PosInfinity | NegInfinity

fun num_less :: "jsnum \<Rightarrow> jsnum \<Rightarrow> bool" where
  "num_less (Finite a) (Finite b) = (a < b)"
| "num_less NegInfinity y = (y \<noteq> NegInfinity)"
| "num_less x PosInfinity = (x \<noteq> PosInfinity)"
| "num_less x y = False"

definition is_digit :: "char \<Rightarrow> bool" where
  "is_digit c = (48 \<le> code_unit c \<and> code_unit c \<le> 57)"

definition decimal_value :: "string \<Rightarrow> nat" where
  "decimal_value ds = foldl (\<lambda>acc c. 10 * acc + (code_unit c - 48)) 0 ds"

fun bitlen :: "nat \<Rightarrow> nat" where
  "bitlen n = (if n = 0 then 0 else Suc (bitlen (n div 2)))"

text \<open>
  Rounding a natural number to a double (53 bits of precision, ties to even); from
  \<open>2 ^ 1024\<close> on the result is \<^verbatim>\<open>Infinity\<close>.
\<close>

definition round_double :: "nat \<Rightarrow> jsnum" where
  "round_double n =
     (if n < 2 ^ 53 then Finite n
      else
        let e = bitlen n - 53;
            q = n div 2 ^ e;
            r = n mod 2 ^ e;
            half = 2 ^ (e - 1);
            q' = (if half < r \<or> (r = half \<and> odd q) then q + 1 else q);
            v = q' * 2 ^ e
        in if 2 ^ 1024 \<le> v then PosInfinity else Finite v)"

text \<open>The white space of \<^verbatim>\<open>StrWhiteSpaceChar\<close> below U+0100: TAB, LF, VT, FF, CR, SP, NBSP.\<close>

definition is_space :: "char \<Rightarrow> bool" where
  "is_space c = (code_unit c \<in> {9, 10, 11, 12, 13, 32, 160})"

definition trim :: "string \<Rightarrow> string" where
  "trim s = rev (dropWhile is_space (rev (dropWhile is_space s)))"

text \<open>
  \<^verbatim>\<open>StringToNumber\<close>, \<open>None\<close> for \<^verbatim>\<open>NaN\<close>, on the strings the tokenizer applies it to:
  the runs of digits and the runs without a digit.
\<close>

definition StringToNumber :: "string \<Rightarrow> jsnum option" where
  "StringToNumber s =
     (let t = trim s in
      if t = [] then Some (Finite 0)
      else if list_all is_digit t then Some (round_double (decimal_value t))
      else if t = ''Infinity'' \<or> t = ''+Infinity'' then Some PosInfinity
      else if t = ''-Infinity'' then Some NegInfinity
      else None)"

text \<open>
  \<^verbatim>\<open>String.prototype.toLowerCase\<close> on U+0000 .. U+00FF: the capital letters A to Z and
  the capital letters of U+00C0 .. U+00DE (U+00D7, the multiplication sign, is no
  letter) move up by 32.
\<close>

definition lower_char :: "char \<Rightarrow> char" where
  "lower_char c =
     (let u = code_unit c in
      if (65 \<le> u \<and> u \<le> 90) \<or> (192 \<le> u \<and> u \<le> 222 \<and> u \<noteq> 215) then char_of (u + 32) else c)"

definition toLowerCase :: "string \<Rightarrow> string" where
  "toLowerCase s = map lower_char s"

subsection \<open>Tokens\<close>

datatype token = Num jsnum | Text string

text \<open>
  \<^verbatim>\<open>s.match(/\d+|\D+/g)\<close>: the maximal runs of digits and of other characters, from
  left to right. The empty list stands for \<^verbatim>\<open>null\<close>, the result when nothing matches.
\<close>

function match_runs :: "string \<Rightarrow> string list" where
  "match_runs [] = []"
| "match_runs (c # cs) =
     (if is_digit c
      then (c # takeWhile is_digit cs) # match_runs (dropWhile is_digit cs)
      else (c # takeWhile (\<lambda>d. \<not> is_digit d) cs) # match_runs (dropWhile (\<lambda>d. \<not> is_digit d) cs))"
  by pat_completeness auto
termination
  by (relation "measure length") (auto simp: length_dropWhile_le less_Suc_eq_le)

text \<open>\<^verbatim>\<open>t => (isNaN(t) ? t.toLowerCase() : Number(t))\<close>\<close>

definition to_token :: "string \<Rightarrow> token" where
  "to_token t = (case StringToNumber t of None \<Rightarrow> Text (toLowerCase t) | Some n \<Rightarrow> Num n)"

text \<open>Calling \<^verbatim>\<open>map\<close> on \<^verbatim>\<open>null\<close> raises a \<^verbatim>\<open>TypeError\<close>.\<close>

definition tokenize :: "string \<Rightarrow> error + token list" where
  "tokenize path =
     (case match_runs (basename path) of
        [] \<Rightarrow> Inl TypeError
      | r # rs \<Rightarrow> Inr (map to_token (r # rs)))"

subsection \<open>The comparator\<close>

text \<open>\<^verbatim>\<open>x < y\<close> on two strings: by code units, a proper prefix first.\<close>

fun str_less :: "string \<Rightarrow> string \<Rightarrow> bool" where
  "str_less [] [] = False"
| "str_less [] (d # t) = True"
| "str_less (c # s) [] = False"
| "str_less (c # s) (d # t) =
     (code_unit c < code_unit d \<or> (code_unit c = code_unit d \<and> str_less s t))"

fun ToNumber :: "token \<Rightarrow> jsnum option" where
  "ToNumber (Num n) = Some n"
| "ToNumber (Text s) = StringToNumber s"

text \<open>
  \<^verbatim>\<open>x < y\<close> on two tokens: two strings are compared as strings; otherwise both sides
  are converted to numbers, and a comparison with \<^verbatim>\<open>NaN\<close> is false.
\<close>

fun js_less :: "token \<Rightarrow> token \<Rightarrow> bool" where
  "js_less (Text s) (Text t) = str_less s t"
| "js_less x y =
     (case ToNumber x of
        None \<Rightarrow> False
      | Some a \<Rightarrow> (case ToNumber y of None \<Rightarrow> False | Some b \<Rightarrow> num_less a b))"

text \<open>
  The loop of the comparator, on the two token arrays from position \<open>i\<close> on. The result
  is the sign of what the source returns (\<^verbatim>\<open>x - y\<close> of two different numbers has the
  sign of their order): \<^verbatim>\<open>sort\<close> looks at nothing else. Reading past the end of an
  array gives \<^verbatim>\<open>undefined\<close>; \<^verbatim>\<open>!==\<close> on two tokens is inequality, a number and a string
  being always different.
\<close>

fun compare_tokens :: "token list \<Rightarrow> token list \<Rightarrow> int" where
  "compare_tokens [] [] = 0"
| "compare_tokens [] (y # ys) = - 1"
| "compare_tokens (x # xs) [] = 1"
| "compare_tokens (Num a # xs) (Num b # ys) =
     (if a \<noteq> b then (if num_less a b then - 1 else 1) else compare_tokens xs ys)"
| "compare_tokens (x # xs) (y # ys) =
     (if x \<noteq> y then (if js_less x y then - 1 else 1) else compare_tokens xs ys)"

record pdfObj =
  name :: string
  tokens :: "token list"

definition comparator :: "pdfObj \<Rightarrow> pdfObj \<Rightarrow> int" where
  "comparator a b = compare_tokens (tokens a) (tokens b)"


subsection \<open>\<^verbatim>\<open>Array.prototype.sort\<close>\<close>

text \<open>
  The sort of V8, the engine of Node.js, with a comparator \<open>cmp\<close>: a merge sort on
  natural runs (\<^verbatim>\<open>ArrayTimSortImpl\<close> in \<^verbatim>\<open>array-sort.tq\<close>). The array is cut into runs from
  left to right. \<^verbatim>\<open>CountAndMakeRun\<close> finds the run that the rest of the array starts
  with: the longest prefix that never steps down (no element compares below its
  predecessor), or, when the second element compares below the first, the longest
  strictly descending prefix, which is reversed in place. A run shorter than the
  minimal run length is extended to that length by \<^verbatim>\<open>BinaryInsertionSort\<close>, which
  inserts each further element into the sorted prefix, at the position a binary
  search finds. Every run is pushed on the stack of pending runs, and neighbouring
  runs of the stack are merged (\<^verbatim>\<open>MergeCollapse\<close>, \<^verbatim>\<open>MergeForceCollapse\<close>, \<^verbatim>\<open>MergeAt\<close>,
  \<^verbatim>\<open>MergeLow\<close>, \<^verbatim>\<open>MergeHigh\<close>, with the searches \<^verbatim>\<open>GallopLeft\<close> and \<^verbatim>\<open>GallopRight\<close>). An array of
  fewer than two elements is returned as it is.

  The source keeps a run as a base index and a length in the work array. Here a run
  is the list of its elements and the stack is the list of the pending runs from left
  to right: the work array is the concatenation of the pending runs, followed by the
  part of the array that has not been cut yet.
\<close>

fun run_extend :: "('a \<Rightarrow> 'a \<Rightarrow> int) \<Rightarrow> bool \<Rightarrow> 'a \<Rightarrow> 'a list \<Rightarrow> nat" where
  "run_extend cmp isDescending previousElement [] = 0"
| "run_extend cmp isDescending previousElement (currentElement # rest) =
     (let order = cmp currentElement previousElement in
      if (if isDescending then 0 \<le> order else order < 0) then 0
      else Suc (run_extend cmp isDescending currentElement rest))"

fun countAndMakeRun :: "('a \<Rightarrow> 'a \<Rightarrow> int) \<Rightarrow> 'a list \<Rightarrow> nat \<times> 'a list" where
  "countAndMakeRun cmp (elementHigh # elementLow # rest) =
     (let isDescending = (cmp elementLow elementHigh < 0);
          runLength = 2 + run_extend cmp isDescending elementLow rest;
          a = elementHigh # elementLow # rest
      in (runLength, if isDescending then rev (take runLength a) @ drop runLength a else a))"
| "countAndMakeRun cmp a = (length a, a)"

function binary_search :: "('a \<Rightarrow> 'a \<Rightarrow> int) \<Rightarrow> 'a \<Rightarrow> 'a list \<Rightarrow> nat \<Rightarrow> nat \<Rightarrow> nat" where
  "binary_search cmp pivot a left right =
     (if left < right then
        (let mid = left + (right - left) div 2 in
         if cmp pivot (a ! mid) < 0 then binary_search cmp pivot a left mid
         else binary_search cmp pivot a (mid + 1) right)
      else left)"
  by pat_completeness auto
termination
  by (relation "measure (\<lambda>(cmp, pivot, a, left, right). right - left)") auto

definition insert_at :: "'a list \<Rightarrow> nat \<Rightarrow> nat \<Rightarrow> 'a list" where
  "insert_at a left start =
     take left a @ [a ! start] @ drop left (take start a) @ drop (Suc start) a"

function binaryInsertionSort :: "('a \<Rightarrow> 'a \<Rightarrow> int) \<Rightarrow> 'a list \<Rightarrow> nat \<Rightarrow> 'a list" where
  "binaryInsertionSort cmp a start =
     (if start < length a then
        (let pivot = a ! start;
             left = binary_search cmp pivot a 0 start
         in binaryInsertionSort cmp (insert_at a left start) (Suc start))
      else a)"
  by pat_completeness auto


lemma binary_search_bounds:
  "left \<le> right \<Longrightarrow>
     left \<le> binary_search cmp pivot a left right \<and> binary_search cmp pivot a left right \<le> right"
proof (induction cmp pivot a left right rule: binary_search.induct)
  case (1 cmp pivot a left right)
  show ?case
  proof (cases "left < right")
    case True
    let ?mid = "left + (right - left) div 2"
    have m: "left \<le> ?mid" "?mid < right" using True by auto
    show ?thesis
    proof (cases "cmp pivot (a ! ?mid) < 0")
      case c: True
      from "1.IH"(1)[OF True refl c] m
      have "left \<le> binary_search cmp pivot a left ?mid \<and> binary_search cmp pivot a left ?mid \<le> ?mid"
        by simp
      then show ?thesis
        using True c m by (subst (1 2) binary_search.simps) (simp add: Let_def)
    next
      case c: False
      from "1.IH"(2)[OF True refl c] m
      have "?mid + 1 \<le> binary_search cmp pivot a (?mid + 1) right
            \<and> binary_search cmp pivot a (?mid + 1) right \<le> right"
        by simp
      then show ?thesis
        using True c m by (subst (1 2) binary_search.simps) (simp add: Let_def)
    qed
  next
    case False
    then show ?thesis
      using "1.prems" by (subst (1 2) binary_search.simps) simp
  qed
qed

lemma length_insert_at:
  "left \<le> start \<Longrightarrow> start < length a \<Longrightarrow> length (insert_at a left start) = length a"
  by (simp add: insert_at_def)

termination binaryInsertionSort
  apply (relation "measure (\<lambda>(cmp, a, start). length a - start)")
   apply simp
  subgoal for cmp a start pivot left
    using binary_search_bounds[of 0 start cmp pivot a]
    by (simp add: length_insert_at)
  done

declare binary_search.simps [simp del]
declare binaryInsertionSort.simps [simp del]

text \<open>
  \<^verbatim>\<open>ComputeMinRunLength\<close>: the length of the array while it is below 64; otherwise the
  six leading bits of the length, plus one when a bit was shifted out.
\<close>

function computeMinRunLength_loop :: "nat \<Rightarrow> nat \<Rightarrow> nat" where
  "computeMinRunLength_loop n r =
     (if 64 \<le> n then computeMinRunLength_loop (n div 2) (max r (n mod 2)) else n + r)"
  by pat_completeness auto
termination
  by (relation "measure fst") auto

declare computeMinRunLength_loop.simps [simp del]

definition computeMinRunLength :: "nat \<Rightarrow> nat" where
  "computeMinRunLength n = computeMinRunLength_loop n 0"

text \<open>
  \<^verbatim>\<open>GallopLeft\<close> and \<^verbatim>\<open>GallopRight\<close> look for the position of a key in a run of \<open>n\<close>
  elements, starting at the index \<open>hint\<close>: the first loop (\<open>gallop_offsets\<close>) moves away
  from the hint by the offsets 1, 3, 7, ... as long as the element met tells to go
  further, to the right when the element at the hint tells that the position is to
  its right and to the left otherwise; the second loop (\<open>gallop_search\<close>) is a binary
  search between the last two offsets. The two functions differ in the test only:
  the position is right of the element at index \<open>i\<close> when that element compares below
  the key (\<^verbatim>\<open>GallopLeft\<close>), or when the key does not compare below that element
  (\<^verbatim>\<open>GallopRight\<close>).
\<close>

function gallop_offsets :: "(nat \<Rightarrow> bool) \<Rightarrow> nat \<Rightarrow> nat \<Rightarrow> nat \<Rightarrow> nat \<times> nat" where
  "gallop_offsets further lastOfs offset maxOfs =
     (if offset < maxOfs then
        (if further offset then gallop_offsets further offset (2 * offset + 1) maxOfs
         else (lastOfs, offset))
      else (lastOfs, offset))"
  by pat_completeness auto
termination
  by (relation "measure (\<lambda>(further, lastOfs, offset, maxOfs). maxOfs - offset)") auto

declare gallop_offsets.simps [simp del]

function gallop_search :: "(nat \<Rightarrow> bool) \<Rightarrow> nat \<Rightarrow> nat \<Rightarrow> nat" where
  "gallop_search right_of lastOfs offset =
     (if lastOfs < offset then
        (let m = lastOfs + (offset - lastOfs) div 2 in
         if right_of m then gallop_search right_of (m + 1) offset
         else gallop_search right_of lastOfs m)
      else offset)"
  by pat_completeness auto
termination
  by (relation "measure (\<lambda>(right_of, lastOfs, offset). offset - lastOfs)") auto

declare gallop_search.simps [simp del]

definition gallop :: "(nat \<Rightarrow> bool) \<Rightarrow> nat \<Rightarrow> nat \<Rightarrow> nat" where
  "gallop right_of n hint =
     (if right_of hint then
        (case gallop_offsets (\<lambda>ofs. right_of (hint + ofs)) 0 1 (n - hint) of
           (lastOfs, offset) \<Rightarrow>
             gallop_search right_of (lastOfs + hint + 1) (min offset (n - hint) + hint))
      else
        (case gallop_offsets (\<lambda>ofs. \<not> right_of (hint - ofs)) 0 1 (hint + 1) of
           (lastOfs, offset) \<Rightarrow>
             gallop_search right_of (hint + 1 - min offset (hint + 1)) (hint - lastOfs)))"

definition gallopLeft :: "('a \<Rightarrow> 'a \<Rightarrow> int) \<Rightarrow> 'a \<Rightarrow> 'a list \<Rightarrow> nat \<Rightarrow> nat" where
  "gallopLeft cmp key a hint = gallop (\<lambda>i. cmp (a ! i) key < 0) (length a) hint"

definition gallopRight :: "('a \<Rightarrow> 'a \<Rightarrow> int) \<Rightarrow> 'a \<Rightarrow> 'a list \<Rightarrow> nat \<Rightarrow> nat" where
  "gallopRight cmp key a hint = gallop (\<lambda>i. \<not> cmp key (a ! i) < 0) (length a) hint"

definition kMinGallopWins :: nat where
  "kMinGallopWins = 7"

text \<open>
  \<^verbatim>\<open>MergeLow\<close> merges the runs \<open>as\<close> and \<open>bs\<close> from the left, when \<open>as\<close> is not the longer
  one. The first element of \<open>bs\<close> is moved first. Then the loop runs in two modes:
  element by element (\<open>Straight\<close>, with the numbers of wins in a row of each run) until
  one run has won \<open>minGallop\<close> times in a row, and then by whole stretches found with
  the galloping searches (\<open>Galloping\<close>) as long as a stretch has at least
  \<open>kMinGallopWins\<close> elements. A state of the loop is the mode, \<open>minGallop\<close>, the elements
  merged so far and what is left of the two runs; a step of the loop ends the merge
  (\<open>Inl\<close>, with the merged run and the value of \<open>minGallop\<close> kept in the sort state) or
  gives the next state (\<open>Inr\<close>). The labels \<^verbatim>\<open>Succeed\<close> and \<^verbatim>\<open>CopyB\<close> of the source are the
  results with the rest of one run appended, and with the rest of \<open>bs\<close> followed by the
  last element of \<open>as\<close>. The source runs the loop with at least two elements left of
  \<open>as\<close> and one of \<open>bs\<close>; a step on an empty run ends the merge as \<^verbatim>\<open>Succeed\<close> does.

  A round in galloping mode has two halves. The first (\<open>lo_gallop_in_A\<close>) moves the
  elements of \<open>as\<close> that the first element of \<open>bs\<close> does not compare below, found by
  \<^verbatim>\<open>GallopRight\<close>, and then that element of \<open>bs\<close>; the second (\<open>lo_gallop_in_B\<close>) moves the
  elements of \<open>bs\<close> that compare below the first element of \<open>as\<close>, found by \<^verbatim>\<open>GallopLeft\<close>,
  and then that element of \<open>as\<close>. \<open>minGallop\<close> is incremented when the galloping mode is
  entered, decremented (not below 1) and stored at the start of every round, and
  incremented when the mode is left. The number of elements left of the two runs
  (\<open>unmerged\<close>) decreases with every step.
\<close>

datatype merge_mode = Straight nat nat | Galloping

type_synonym 'a merge_state = "merge_mode \<times> nat \<times> 'a list \<times> 'a list \<times> 'a list"

fun unmerged :: "'a merge_state \<Rightarrow> nat" where
  "unmerged (mode, minGallop, out, as, bs) = length as + length bs"

definition lo_straight_step ::
    "('a \<Rightarrow> 'a \<Rightarrow> int) \<Rightarrow> nat \<Rightarrow> nat \<Rightarrow> nat \<Rightarrow> 'a list \<Rightarrow> 'a list \<Rightarrow> 'a list
      \<Rightarrow> 'a list \<times> nat + 'a merge_state" where
  "lo_straight_step cmp minGallop nofWinsA nofWinsB out as bs =
     (if as = [] \<or> bs = [] then Inl (out @ as @ bs, minGallop)
      else if cmp (hd bs) (hd as) < 0 then
        (if tl bs = [] then Inl (out @ [hd bs] @ as, minGallop)
         else if minGallop \<le> nofWinsB + 1
           then Inr (Galloping, minGallop + 1, out @ [hd bs], as, tl bs)
           else Inr (Straight 0 (nofWinsB + 1), minGallop, out @ [hd bs], as, tl bs))
      else
        (if length (tl as) = 1 then Inl (out @ [hd as] @ bs @ tl as, minGallop)
         else if minGallop \<le> nofWinsA + 1
           then Inr (Galloping, minGallop + 1, out @ [hd as], tl as, bs)
           else Inr (Straight (nofWinsA + 1) 0, minGallop, out @ [hd as], tl as, bs)))"

definition lo_gallop_in_A ::
    "('a \<Rightarrow> 'a \<Rightarrow> int) \<Rightarrow> 'a list \<Rightarrow> 'a list \<Rightarrow> 'a list
      \<Rightarrow> 'a list + nat \<times> 'a list \<times> 'a list \<times> 'a list" where
  "lo_gallop_in_A cmp out as bs =
     (let nofWinsA = gallopRight cmp (hd bs) as 0;
          out' = out @ take nofWinsA as;
          as' = drop nofWinsA as
      in if 0 < nofWinsA \<and> length as' = 1 then Inl (out' @ bs @ as')
         else if 0 < nofWinsA \<and> as' = [] then Inl (out' @ bs)
         else if tl bs = [] then Inl (out' @ [hd bs] @ as')
         else Inr (nofWinsA, out' @ [hd bs], as', tl bs))"

definition lo_gallop_in_B ::
    "('a \<Rightarrow> 'a \<Rightarrow> int) \<Rightarrow> 'a list \<Rightarrow> 'a list \<Rightarrow> 'a list
      \<Rightarrow> 'a list + nat \<times> 'a list \<times> 'a list \<times> 'a list" where
  "lo_gallop_in_B cmp out as bs =
     (let nofWinsB = gallopLeft cmp (hd as) bs 0;
          out' = out @ take nofWinsB bs;
          bs' = drop nofWinsB bs
      in if 0 < nofWinsB \<and> bs' = [] then Inl (out' @ as)
         else if length (tl as) = 1 then Inl (out' @ [hd as] @ bs' @ tl as)
         else Inr (nofWinsB, out' @ [hd as], tl as, bs'))"

definition lo_gallop_step ::
    "('a \<Rightarrow> 'a \<Rightarrow> int) \<Rightarrow> nat \<Rightarrow> 'a list \<Rightarrow> 'a list \<Rightarrow> 'a list
      \<Rightarrow> 'a list \<times> nat + 'a merge_state" where
  "lo_gallop_step cmp minGallop0 out as bs =
     (let minGallop = max 1 (minGallop0 - 1) in
      if as = [] \<or> bs = [] then Inl (out @ as @ bs, minGallop)
      else
        (case lo_gallop_in_A cmp out as bs of
           Inl merged \<Rightarrow> Inl (merged, minGallop)
         | Inr (nofWinsA, out, as, bs) \<Rightarrow>
             (case lo_gallop_in_B cmp out as bs of
                Inl merged \<Rightarrow> Inl (merged, minGallop)
              | Inr (nofWinsB, out, as, bs) \<Rightarrow>
                  if kMinGallopWins \<le> nofWinsA \<or> kMinGallopWins \<le> nofWinsB
                  then Inr (Galloping, minGallop, out, as, bs)
                  else Inr (Straight 0 0, minGallop + 1, out, as, bs))))"

fun lo_step :: "('a \<Rightarrow> 'a \<Rightarrow> int) \<Rightarrow> 'a merge_state \<Rightarrow> 'a list \<times> nat + 'a merge_state" where
  "lo_step cmp (Straight nofWinsA nofWinsB, minGallop, out, as, bs) =
     lo_straight_step cmp minGallop nofWinsA nofWinsB out as bs"
| "lo_step cmp (Galloping, minGallop, out, as, bs) = lo_gallop_step cmp minGallop out as bs"

lemma lo_straight_step_remaining:
  "lo_straight_step cmp mg nA nB out as bs = Inr st \<Longrightarrow> unmerged st < length as + length bs"
  by (cases as; cases bs) (auto simp: lo_straight_step_def split: if_splits)

lemma lo_gallop_in_A_remaining:
  "lo_gallop_in_A cmp out as bs = Inr (n, out', as', bs') \<Longrightarrow> bs \<noteq> [] \<Longrightarrow>
     length as' \<le> length as \<and> length bs' < length bs"
  by (cases bs) (auto simp: lo_gallop_in_A_def Let_def split: if_splits)

lemma lo_gallop_in_B_remaining:
  "lo_gallop_in_B cmp out as bs = Inr (n, out', as', bs') \<Longrightarrow>
     length as' \<le> length as \<and> length bs' \<le> length bs"
  by (auto simp: lo_gallop_in_B_def Let_def split: if_splits)

lemma lo_gallop_step_remaining:
  assumes "lo_gallop_step cmp mg out as bs = Inr st"
  shows "unmerged st < length as + length bs"
proof -
  from assms have ne: "bs \<noteq> []"
    by (auto simp: lo_gallop_step_def Let_def split: if_splits)
  from assms obtain nA out1 as1 bs1 nB out2 as2 bs2 mode mg'
    where A: "lo_gallop_in_A cmp out as bs = Inr (nA, out1, as1, bs1)"
      and B: "lo_gallop_in_B cmp out1 as1 bs1 = Inr (nB, out2, as2, bs2)"
      and st: "st = (mode, mg', out2, as2, bs2)"
    by (auto simp: lo_gallop_step_def Let_def split: if_splits sum.splits)
  from lo_gallop_in_A_remaining[OF A ne] lo_gallop_in_B_remaining[OF B] st
  show ?thesis by simp
qed

lemma lo_step_remaining: "lo_step cmp st = Inr st' \<Longrightarrow> unmerged st' < unmerged st"
  by (cases "(cmp, st)" rule: lo_step.cases)
     (auto dest: lo_straight_step_remaining lo_gallop_step_remaining)

function lo_loop :: "('a \<Rightarrow> 'a \<Rightarrow> int) \<Rightarrow> 'a merge_state \<Rightarrow> 'a list \<times> nat" where
  "lo_loop cmp st = (case lo_step cmp st of Inl result \<Rightarrow> result | Inr st' \<Rightarrow> lo_loop cmp st')"
  by pat_completeness auto
termination
  by (relation "measure (\<lambda>(cmp, st). unmerged st)") (auto simp: lo_step_remaining)

declare lo_loop.simps [simp del]

definition mergeLow ::
    "('a \<Rightarrow> 'a \<Rightarrow> int) \<Rightarrow> nat \<Rightarrow> 'a list \<Rightarrow> 'a list \<Rightarrow> 'a list \<times> nat" where
  "mergeLow cmp minGallop as bs =
     (if tl bs = [] then ([hd bs] @ as, minGallop)
      else if length as = 1 then ([hd bs] @ tl bs @ as, minGallop)
      else lo_loop cmp (Straight 0 0, minGallop, [hd bs], as, tl bs))"

text \<open>
  \<^verbatim>\<open>MergeHigh\<close> is the same from the right, when \<open>as\<close> is the longer run: the last
  element of \<open>as\<close> is moved first, the merged elements grow to the left, and the
  searches start at the last index. \<^verbatim>\<open>CopyA\<close> is the result with the first element of
  \<open>bs\<close>, then the rest of \<open>as\<close>.
\<close>

definition hi_straight_step ::
    "('a \<Rightarrow> 'a \<Rightarrow> int) \<Rightarrow> nat \<Rightarrow> nat \<Rightarrow> nat \<Rightarrow> 'a list \<Rightarrow> 'a list \<Rightarrow> 'a list
      \<Rightarrow> 'a list \<times> nat + 'a merge_state" where
  "hi_straight_step cmp minGallop nofWinsA nofWinsB out as bs =
     (if as = [] \<or> bs = [] then Inl (as @ bs @ out, minGallop)
      else if cmp (last bs) (last as) < 0 then
        (if butlast as = [] then Inl (bs @ [last as] @ out, minGallop)
         else if minGallop \<le> nofWinsA + 1
           then Inr (Galloping, minGallop + 1, [last as] @ out, butlast as, bs)
           else Inr (Straight (nofWinsA + 1) 0, minGallop, [last as] @ out, butlast as, bs))
      else
        (if length (butlast bs) = 1 then Inl (butlast bs @ as @ [last bs] @ out, minGallop)
         else if minGallop \<le> nofWinsB + 1
           then Inr (Galloping, minGallop + 1, [last bs] @ out, as, butlast bs)
           else Inr (Straight 0 (nofWinsB + 1), minGallop, [last bs] @ out, as, butlast bs)))"

definition hi_gallop_in_A ::
    "('a \<Rightarrow> 'a \<Rightarrow> int) \<Rightarrow> 'a list \<Rightarrow> 'a list \<Rightarrow> 'a list
      \<Rightarrow> 'a list + nat \<times> 'a list \<times> 'a list \<times> 'a list" where
  "hi_gallop_in_A cmp out as bs =
     (let k = gallopRight cmp (last bs) as (length as - 1);
          nofWinsA = length as - k;
          out' = drop k as @ out;
          as' = take k as
      in if 0 < nofWinsA \<and> as' = [] then Inl (bs @ out')
         else if length (butlast bs) = 1 then Inl (butlast bs @ as' @ [last bs] @ out')
         else if butlast bs = [] then Inl (as' @ [last bs] @ out')
         else Inr (nofWinsA, [last bs] @ out', as', butlast bs))"

definition hi_gallop_in_B ::
    "('a \<Rightarrow> 'a \<Rightarrow> int) \<Rightarrow> 'a list \<Rightarrow> 'a list \<Rightarrow> 'a list
      \<Rightarrow> 'a list + nat \<times> 'a list \<times> 'a list \<times> 'a list" where
  "hi_gallop_in_B cmp out as bs =
     (let k = gallopLeft cmp (last as) bs (length bs - 1);
          nofWinsB = length bs - k;
          out' = drop k bs @ out;
          bs' = take k bs
      in if 0 < nofWinsB \<and> length bs' = 1 then Inl (bs' @ as @ out')
         else if 0 < nofWinsB \<and> bs' = [] then Inl (as @ out')
         else if butlast as = [] then Inl (bs' @ [last as] @ out')
         else Inr (nofWinsB, [last as] @ out', butlast as, bs'))"

definition hi_gallop_step ::
    "('a \<Rightarrow> 'a \<Rightarrow> int) \<Rightarrow> nat \<Rightarrow> 'a list \<Rightarrow> 'a list \<Rightarrow> 'a list
      \<Rightarrow> 'a list \<times> nat + 'a merge_state" where
  "hi_gallop_step cmp minGallop0 out as bs =
     (let minGallop = max 1 (minGallop0 - 1) in
      if as = [] \<or> bs = [] then Inl (as @ bs @ out, minGallop)
      else
        (case hi_gallop_in_A cmp out as bs of
           Inl merged \<Rightarrow> Inl (merged, minGallop)
         | Inr (nofWinsA, out, as, bs) \<Rightarrow>
             (case hi_gallop_in_B cmp out as bs of
                Inl merged \<Rightarrow> Inl (merged, minGallop)
              | Inr (nofWinsB, out, as, bs) \<Rightarrow>
                  if kMinGallopWins \<le> nofWinsA \<or> kMinGallopWins \<le> nofWinsB
                  then Inr (Galloping, minGallop, out, as, bs)
                  else Inr (Straight 0 0, minGallop + 1, out, as, bs))))"

fun hi_step :: "('a \<Rightarrow> 'a \<Rightarrow> int) \<Rightarrow> 'a merge_state \<Rightarrow> 'a list \<times> nat + 'a merge_state" where
  "hi_step cmp (Straight nofWinsA nofWinsB, minGallop, out, as, bs) =
     hi_straight_step cmp minGallop nofWinsA nofWinsB out as bs"
| "hi_step cmp (Galloping, minGallop, out, as, bs) = hi_gallop_step cmp minGallop out as bs"

lemma hi_straight_step_remaining:
  "hi_straight_step cmp mg nA nB out as bs = Inr st \<Longrightarrow> unmerged st < length as + length bs"
  by (cases as; cases bs) (auto simp: hi_straight_step_def split: if_splits)

lemma hi_gallop_in_A_remaining:
  "hi_gallop_in_A cmp out as bs = Inr (n, out', as', bs') \<Longrightarrow> bs \<noteq> [] \<Longrightarrow>
     length as' \<le> length as \<and> length bs' < length bs"
  by (cases bs) (auto simp: hi_gallop_in_A_def Let_def split: if_splits)

lemma hi_gallop_in_B_remaining:
  "hi_gallop_in_B cmp out as bs = Inr (n, out', as', bs') \<Longrightarrow>
     length as' \<le> length as \<and> length bs' \<le> length bs"
  by (auto simp: hi_gallop_in_B_def Let_def split: if_splits)

lemma hi_gallop_step_remaining:
  assumes "hi_gallop_step cmp mg out as bs = Inr st"
  shows "unmerged st < length as + length bs"
proof -
  from assms have ne: "bs \<noteq> []"
    by (auto simp: hi_gallop_step_def Let_def split: if_splits)
  from assms obtain nA out1 as1 bs1 nB out2 as2 bs2 mode mg'
    where A: "hi_gallop_in_A cmp out as bs = Inr (nA, out1, as1, bs1)"
      and B: "hi_gallop_in_B cmp out1 as1 bs1 = Inr (nB, out2, as2, bs2)"
      and st: "st = (mode, mg', out2, as2, bs2)"
    by (auto simp: hi_gallop_step_def Let_def split: if_splits sum.splits)
  from hi_gallop_in_A_remaining[OF A ne] hi_gallop_in_B_remaining[OF B] st
  show ?thesis by simp
qed

lemma hi_step_remaining: "hi_step cmp st = Inr st' \<Longrightarrow> unmerged st' < unmerged st"
  by (cases "(cmp, st)" rule: hi_step.cases)
     (auto dest: hi_straight_step_remaining hi_gallop_step_remaining)

function hi_loop :: "('a \<Rightarrow> 'a \<Rightarrow> int) \<Rightarrow> 'a merge_state \<Rightarrow> 'a list \<times> nat" where
  "hi_loop cmp st = (case hi_step cmp st of Inl result \<Rightarrow> result | Inr st' \<Rightarrow> hi_loop cmp st')"
  by pat_completeness auto
termination
  by (relation "measure (\<lambda>(cmp, st). unmerged st)") (auto simp: hi_step_remaining)

declare hi_loop.simps [simp del]

definition mergeHigh ::
    "('a \<Rightarrow> 'a \<Rightarrow> int) \<Rightarrow> nat \<Rightarrow> 'a list \<Rightarrow> 'a list \<Rightarrow> 'a list \<times> nat" where
  "mergeHigh cmp minGallop as bs =
     (if butlast as = [] then (bs @ [last as], minGallop)
      else if length bs = 1 then (bs @ butlast as @ [last as], minGallop)
      else hi_loop cmp (Straight 0 0, minGallop, [last as], butlast as, bs))"

text \<open>
  \<^verbatim>\<open>MergeAt\<close> merges the runs \<open>i\<close> and \<open>i + 1\<close> of the stack (\<open>merge_runs\<close> on the two
  runs). The elements of the first run that the first element of the second run
  does not compare below stay where they are, and so do the elements of the second
  run from the position of the last element of the first run on; what is between
  is merged by \<^verbatim>\<open>MergeLow\<close> or \<^verbatim>\<open>MergeHigh\<close>.
\<close>

definition merge_runs ::
    "('a \<Rightarrow> 'a \<Rightarrow> int) \<Rightarrow> nat \<Rightarrow> 'a list \<Rightarrow> 'a list \<Rightarrow> 'a list \<times> nat" where
  "merge_runs cmp minGallop runA runB =
     (let k = gallopRight cmp (hd runB) runA 0;
          as = drop k runA
      in if as = [] then (runA @ runB, minGallop)
         else
           (let lengthB = gallopLeft cmp (last as) runB (length runB - 1);
                bs = take lengthB runB
            in if bs = [] then (runA @ runB, minGallop)
               else
                 (case (if length as \<le> length bs then mergeLow cmp minGallop as bs
                        else mergeHigh cmp minGallop as bs) of
                    (merged, minGallop) \<Rightarrow>
                      (take k runA @ merged @ drop lengthB runB, minGallop))))"

definition mergeAt ::
    "('a \<Rightarrow> 'a \<Rightarrow> int) \<Rightarrow> nat \<Rightarrow> 'a list list \<Rightarrow> nat \<Rightarrow> 'a list list \<times> nat" where
  "mergeAt cmp i pendingRuns minGallop =
     (case merge_runs cmp minGallop (pendingRuns ! i) (pendingRuns ! (i + 1)) of
        (merged, minGallop) \<Rightarrow>
          (take i pendingRuns @ [merged] @ drop (i + 2) pendingRuns, minGallop))"

text \<open>
  \<^verbatim>\<open>MergeCollapse\<close> merges runs at the top of the stack until the lengths of the
  pending runs decrease fast enough from the bottom to the top;
  \<^verbatim>\<open>MergeForceCollapse\<close> merges until one run is left.
\<close>

definition runInvariantEstablished :: "'a list list \<Rightarrow> nat \<Rightarrow> bool" where
  "runInvariantEstablished pendingRuns n =
     (n < 2 \<or> length (pendingRuns ! (n - 1)) + length (pendingRuns ! n)
              < length (pendingRuns ! (n - 2)))"

lemma length_mergeAt:
  "i + 2 \<le> length pendingRuns \<Longrightarrow>
     length (fst (mergeAt cmp i pendingRuns minGallop)) = length pendingRuns - 1"
  by (auto simp: mergeAt_def split: prod.splits)

function mergeCollapse ::
    "('a \<Rightarrow> 'a \<Rightarrow> int) \<Rightarrow> 'a list list \<Rightarrow> nat \<Rightarrow> 'a list list \<times> nat" where
  "mergeCollapse cmp pendingRuns minGallop =
     (if 1 < length pendingRuns then
        (let n = length pendingRuns - 2 in
         if \<not> runInvariantEstablished pendingRuns (n + 1)
            \<or> \<not> runInvariantEstablished pendingRuns n
         then
           (let n = (if length (pendingRuns ! (n - 1)) < length (pendingRuns ! (n + 1))
                     then n - 1 else n)
            in mergeCollapse cmp (fst (mergeAt cmp n pendingRuns minGallop))
                 (snd (mergeAt cmp n pendingRuns minGallop)))
         else if length (pendingRuns ! n) \<le> length (pendingRuns ! (n + 1))
           then mergeCollapse cmp (fst (mergeAt cmp n pendingRuns minGallop))
                  (snd (mergeAt cmp n pendingRuns minGallop))
           else (pendingRuns, minGallop))
      else (pendingRuns, minGallop))"
  by pat_completeness auto
termination
  by (relation "measure (\<lambda>(cmp, pendingRuns, minGallop). length pendingRuns)")
     (auto simp: length_mergeAt case_prod_unfold)

function mergeForceCollapse ::
    "('a \<Rightarrow> 'a \<Rightarrow> int) \<Rightarrow> 'a list list \<Rightarrow> nat \<Rightarrow> 'a list list \<times> nat" where
  "mergeForceCollapse cmp pendingRuns minGallop =
     (if 1 < length pendingRuns then
        (let n = length pendingRuns - 2;
             n = (if 0 < n \<and> length (pendingRuns ! (n - 1)) < length (pendingRuns ! (n + 1))
                  then n - 1 else n)
         in mergeForceCollapse cmp (fst (mergeAt cmp n pendingRuns minGallop))
              (snd (mergeAt cmp n pendingRuns minGallop)))
      else (pendingRuns, minGallop))"
  by pat_completeness auto
termination
  by (relation "measure (\<lambda>(cmp, pendingRuns, minGallop). length pendingRuns)")
     (auto simp: length_mergeAt case_prod_unfold)

declare mergeCollapse.simps [simp del] mergeForceCollapse.simps [simp del]

lemma length_binaryInsertionSort: "length (binaryInsertionSort cmp a start) = length a"
proof (induction cmp a start rule: binaryInsertionSort.induct)
  case (1 cmp a start)
  show ?case
  proof (cases "start < length a")
    case True
    let ?left = "binary_search cmp (a ! start) a 0 start"
    have "?left \<le> start"
      using binary_search_bounds[of 0 start cmp "a ! start" a] by simp
    then have "length (insert_at a ?left start) = length a"
      using True by (rule length_insert_at)
    with "1.IH"[OF True refl refl] True show ?thesis
      by (subst binaryInsertionSort.simps) (simp add: Let_def)
  next
    case False
    then show ?thesis by (subst binaryInsertionSort.simps) simp
  qed
qed

lemma run_extend_le: "run_extend cmp d prev rest \<le> length rest"
  by (induction rest arbitrary: prev) (auto simp: Let_def)

lemma countAndMakeRun_length: "length (snd (countAndMakeRun cmp a)) = length a"
  by (cases "(cmp, a)" rule: countAndMakeRun.cases) (auto simp: Let_def)

lemma countAndMakeRun_positive: "a \<noteq> [] \<Longrightarrow> 0 < fst (countAndMakeRun cmp a)"
  by (cases "(cmp, a)" rule: countAndMakeRun.cases) (auto simp: Let_def)

text \<open>
  One round of the main loop on what is left of the array: the next run, extended
  to the minimal run length (or to the end of the array) when it is shorter, and
  what is left after it.
\<close>

definition next_run :: "('a \<Rightarrow> 'a \<Rightarrow> int) \<Rightarrow> nat \<Rightarrow> 'a list \<Rightarrow> 'a list \<times> 'a list" where
  "next_run cmp minRunLength remaining =
     (case countAndMakeRun cmp remaining of
        (currentRunLength, a) \<Rightarrow>
          if currentRunLength < minRunLength then
            (let forcedRunLength = min minRunLength (length remaining) in
             (binaryInsertionSort cmp (take forcedRunLength a) currentRunLength,
              drop forcedRunLength a))
          else (take currentRunLength a, drop currentRunLength a))"

lemma next_run_shorter:
  "remaining \<noteq> [] \<Longrightarrow> length (snd (next_run cmp minRunLength remaining)) < length remaining"
  using countAndMakeRun_positive[of remaining cmp] countAndMakeRun_length[of cmp remaining]
  by (auto simp: next_run_def Let_def split: prod.splits)

function timsort_loop ::
    "('a \<Rightarrow> 'a \<Rightarrow> int) \<Rightarrow> nat \<Rightarrow> 'a list list \<Rightarrow> nat \<Rightarrow> 'a list \<Rightarrow> 'a list" where
  "timsort_loop cmp minRunLength pendingRuns minGallop remaining =
     (if remaining \<noteq> [] then
        (let run = fst (next_run cmp minRunLength remaining);
             merged = mergeCollapse cmp (pendingRuns @ [run]) minGallop
         in timsort_loop cmp minRunLength (fst merged) (snd merged)
              (snd (next_run cmp minRunLength remaining)))
      else concat (fst (mergeForceCollapse cmp pendingRuns minGallop)))"
  by pat_completeness auto
termination
  by (relation "measure (\<lambda>(cmp, minRunLength, pendingRuns, minGallop, remaining). length remaining)")
     (auto simp: next_run_shorter)

declare timsort_loop.simps [simp del]

text \<open>
  \<^verbatim>\<open>ArrayTimSortImpl\<close>: the runs are cut and pushed one by one, with a
  \<^verbatim>\<open>MergeCollapse\<close> after each, and merged into one at the end.
\<close>

definition array_sort :: "('a \<Rightarrow> 'a \<Rightarrow> int) \<Rightarrow> 'a list \<Rightarrow> 'a list" where
  "array_sort cmp a =
     (if length a < 2 then a
      else timsort_loop cmp (computeMinRunLength (length a)) [] kMinGallopWins a)"


subsection \<open>The index\<close>

definition hex_digit :: "nat \<Rightarrow> char" where
  "hex_digit n = ''0123456789ABCDEF'' ! (n mod 16)"

definition percent :: "nat \<Rightarrow> string" where
  "percent byte = [CHR ''%'', hex_digit (byte div 16), hex_digit byte]"

text \<open>
  The characters \<^verbatim>\<open>encodeURI\<close> leaves as they are: letters, digits, the reserved
  characters, the marks and the number sign.
\<close>

definition uri_kept :: "char \<Rightarrow> bool" where
  "uri_kept c =
     (let u = code_unit c in
      (65 \<le> u \<and> u \<le> 90) \<or> (97 \<le> u \<and> u \<le> 122) \<or> (48 \<le> u \<and> u \<le> 57)
      \<or> c \<in> set '';/?:@&=+$,-_.!~*()#'' \<or> u = 39)"

text \<open>
  \<^verbatim>\<open>encodeURI\<close>: every other code unit is replaced by the escape of each byte of its
  UTF-8 encoding, one byte below U+0080 and two from there to U+00FF.
\<close>

definition encode_unit :: "char \<Rightarrow> string" where
  "encode_unit c =
     (let u = code_unit c in
      if uri_kept c then [c]
      else if u < 128 then percent u
      else percent (192 + u div 64) @ percent (128 + u mod 64))"

definition encodeURI :: "string \<Rightarrow> string" where
  "encodeURI s = concat (map encode_unit s)"

definition newline :: string where
  "newline = [CHR 0x0A]"

definition relToDocs :: "string \<Rightarrow> string \<Rightarrow> string" where
  "relToDocs wd absPath =
     join ''/'' (split path_sep (path_relative wd (path_join wd ''docs'') absPath))"

definition list_item :: "string \<Rightarrow> string \<Rightarrow> string" where
  \<open>list_item wd absPath =
     (let rel = relToDocs wd absPath;
          href = encodeURI rel
      in '' <li><a href="'' @ href @ ''">'' @ rel @ ''</a></li>'')\<close>

definition listItems :: "string \<Rightarrow> string list \<Rightarrow> string" where
  "listItems wd pdfPaths = join newline (map (list_item wd) pdfPaths)"

definition title :: string where
  "title = ''Michael Basman Legacy Audio Cassette Booklets''"

definition html_head :: "string list" where
  \<open>html_head =
    [''<!doctype html>'',
     ''<html lang="en">'',
     ''<head>'',
     ''  <meta charset="utf-8">'',
     ''  <meta name="viewport" content="width=device-width, initial-scale=1">'',
     ''  <title>'' @ title @ ''</title>'',
     ''  <style>'',
     ''    body { font-family: system-ui, -apple-system, "Segoe UI", Roboto, "Helvetica Neue", Arial; padding: 2rem; }'',
     ''    h1 { font-size: 1.5rem; }'',
     ''    ul { line-height: 1.6; }'',
     ''  </style>'',
     ''</head>'',
     ''<body>'',
     ''  <h1>'' @ title @ ''</h1>'',
     ''  <p>Index of audio chess CASSette booklets:</p>'',
     ''  <ul>'']\<close>

definition html_tail :: "string list" where
  "html_tail = [''  </ul>'', ''</body>'', ''</html>'']"

definition html :: "string \<Rightarrow> string list \<Rightarrow> string" where
  "html wd pdfPaths = join newline (html_head @ [listItems wd pdfPaths] @ html_tail)"

subsection \<open>The program\<close>

text \<open>
  What a run depends on: the working directory, what \<^verbatim>\<open>stat\<close> finds at \<^verbatim>\<open>docs\<close> under it
  (\<open>None\<close> when \<^verbatim>\<open>stat\<close> fails), and whether \<^verbatim>\<open>docs/index.html\<close> can be written. What a
  run does is the list of its effects, in order; the process ends with the exit
  status of the last one (status 0 when \<open>main\<close> returns).
\<close>

record world =
  cwd :: string
  docs :: "fsnode option"
  writable :: bool

datatype effect =
    Stat string
  | Walk string
  | WriteFile string string
  | ConsoleLog string
  | ConsoleError string "error option"
  | Exit nat

function show_nat :: "nat \<Rightarrow> string" where
  "show_nat n =
     (if n < 10 then [char_of (48 + n)]
      else show_nat (n div 10) @ [char_of (48 + n mod 10)])"
  by pat_completeness auto
termination
  by (relation "measure id") auto

declare show_nat.simps [simp del]

fun make_objs :: "string list \<Rightarrow> error + pdfObj list" where
  "make_objs [] = Inr []"
| "make_objs (p # ps) =
     (case tokenize p of
        Inl e \<Rightarrow> Inl e
      | Inr ts \<Rightarrow> (case make_objs ps of
                     Inl e \<Rightarrow> Inl e
                   | Inr objs \<Rightarrow> Inr (\<lparr>name = p, tokens = ts\<rparr> # objs)))"

definition generateHtmlIndex :: "world \<Rightarrow> string list \<Rightarrow> error + effect" where
  "generateHtmlIndex w pdfPaths =
     (let document = html (cwd w) pdfPaths in
      if writable w then Inr (WriteFile ''docs/index.html'' document) else Inl WriteFailed)"

text \<open>The \<^verbatim>\<open>try\<close> block of \<open>main\<close> after the existence check.\<close>

definition try_block :: "world \<Rightarrow> string \<Rightarrow> fsnode \<Rightarrow> error + effect list" where
  "try_block w docsDir root =
     (case walkForPdfs docsDir root of
        Inl err \<Rightarrow> Inl err
      | Inr pdfs \<Rightarrow>
          (case make_objs pdfs of
             Inl err \<Rightarrow> Inl err
           | Inr pdfObjs \<Rightarrow>
               (case generateHtmlIndex w (map name (array_sort comparator pdfObjs)) of
                  Inl err \<Rightarrow> Inl err
                | Inr written \<Rightarrow>
                    Inr [written,
                         ConsoleLog (''index.html has been written with ''
                                     @ show_nat (length pdfs) @ '' PDF(s).'')])))"

definition main :: "world \<Rightarrow> effect list" where
  "main w =
     (let docsDir = path_join (cwd w) ''docs'' in
      case docs w of
        None \<Rightarrow>
          [Stat docsDir,
           ConsoleError ''Error: docs directory not found in current working directory.'' None,
           Exit 1]
      | Some root \<Rightarrow>
          Stat docsDir # Walk docsDir #
            (case try_block w docsDir root of
               Inl err \<Rightarrow> [ConsoleError ''Failed:'' (Some err), Exit 1]
             | Inr effects \<Rightarrow> effects @ [Exit 0]))"


text \<open>
  The entry named \<^verbatim>\<open>docs\<close> in the working directory as it is, before any link is followed:
  nothing, a file, directory or special file, or a symbolic link with what it leads to
  (\<open>None\<close> for a dangling link). \<^verbatim>\<open>fs.promises.stat\<close> follows symbolic links and fails
  when there is no entry or the link leads nowhere.
\<close>

datatype entry =
    NoEntry
  | Entry fsnode
  | SymbolicLink "fsnode option"

fun stat :: "entry \<Rightarrow> fsnode option" where
  "stat NoEntry = None"
| "stat (Entry node) = Some node"
| "stat (SymbolicLink target) = target"

fun entry_exists :: "entry \<Rightarrow> bool" where
  "entry_exists NoEntry = False"
| "entry_exists _ = True"

fun entry_isDirectory :: "entry \<Rightarrow> bool" where
  "entry_isDirectory (Entry node) = isDirectory node"
| "entry_isDirectory _ = False"

definition world_with :: "string \<Rightarrow> entry \<Rightarrow> bool \<Rightarrow> world" where
  "world_with wd e can_write = \<lparr>cwd = wd, docs = stat e, writable = can_write\<rparr>"

text \<open>What can be observed of a run.\<close>

fun stderr :: "effect list \<Rightarrow> (string \<times> error option) list" where
  "stderr [] = []"
| "stderr (ConsoleError message err # effects) = (message, err) # stderr effects"
| "stderr (_ # effects) = stderr effects"

fun stdout :: "effect list \<Rightarrow> string list" where
  "stdout [] = []"
| "stdout (ConsoleLog message # effects) = message # stdout effects"
| "stdout (_ # effects) = stdout effects"

fun written :: "effect list \<Rightarrow> (string \<times> string) list" where
  "written [] = []"
| "written (WriteFile file content # effects) = (file, content) # written effects"
| "written (_ # effects) = written effects"

fun walked :: "effect list \<Rightarrow> string list" where
  "walked [] = []"
| "walked (Walk dir # effects) = dir # walked effects"
| "walked (_ # effects) = walked effects"

fun exit_status :: "effect list \<Rightarrow> nat option" where
  "exit_status [] = None"
| "exit_status (Exit status # effects) = Some status"
| "exit_status (_ # effects) = exit_status effects"

text \<open>The run that the \<^verbatim>\<open>catch\<close> block ends: the error on standard error, nothing else.\<close>

definition reports :: "effect list \<Rightarrow> error \<Rightarrow> bool" where
  "reports effects err =
     (stderr effects = [(''Failed:'', Some err)] \<and> stdout effects = [] \<and> written effects = []
      \<and> exit_status effects = Some 1)"

subsection \<open>Notions of the specification\<close>

text \<open>
  An array in which no element compares below its predecessor, and a comparator that
  never answers "below" in both directions.
\<close>

definition noDescent :: "('a \<Rightarrow> 'a \<Rightarrow> int) \<Rightarrow> 'a list \<Rightarrow> bool" where
  "noDescent cmp a = successively (\<lambda>x y. 0 \<le> cmp y x) a"

definition asymmetric :: "('a \<Rightarrow> 'a \<Rightarrow> int) \<Rightarrow> bool" where
  "asymmetric cmp = (\<forall>x y. cmp x y < 0 \<longrightarrow> 0 \<le> cmp y x)"

text \<open>
  The order a comparator stands for when it is used to sort: \<open>a\<close> may stand before \<open>b\<close>
  when the comparator does not answer "above".
\<close>

definition precedes :: "pdfObj \<Rightarrow> pdfObj \<Rightarrow> bool" where
  "precedes a b = (comparator a b \<le> 0)"

text \<open>
  The list entry of the specification, \<^verbatim>\<open><li><a href="ENCODED">RELATIVE</a></li>\<close>, and
  its RELATIVE: the path relative to the docs directory under the working directory
  (on POSIX its separators are forward slashes already).
\<close>

definition anchor_item :: "string \<Rightarrow> string \<Rightarrow> string" where
  \<open>anchor_item href label = ''<li><a href="'' @ href @ ''">'' @ label @ ''</a></li>''\<close>

definition spec_relative :: "string \<Rightarrow> string \<Rightarrow> string" where
  "spec_relative wd absPath = path_relative wd (path_join wd ''docs'') absPath"

text \<open>
  Two names that differ only in leading zeros inside runs of digits: they have the same
  runs, once the zeros a run of digits starts with are dropped.
\<close>

definition strip_zeros :: "string \<Rightarrow> string" where
  "strip_zeros r = (if list_all is_digit r then dropWhile (\<lambda>c. c = CHR ''0'') r else r)"

definition same_but_leading_zeros :: "string \<Rightarrow> string \<Rightarrow> bool" where
  "same_but_leading_zeros a b =
     (map strip_zeros (match_runs a) = map strip_zeros (match_runs b))"

text \<open>
  A name as a directory holds it: not empty, without a separator, and neither \<^verbatim>\<open>.\<close> nor
  \<^verbatim>\<open>..\<close>; and a list of such names, the components of a resolved path.
\<close>

definition plain :: "string \<Rightarrow> bool" where
  "plain n = (n \<noteq> [] \<and> path_sep \<notin> set n \<and> n \<noteq> ''.'' \<and> n \<noteq> ''..'')"

definition resolved :: "string list \<Rightarrow> bool" where
  "resolved X = (\<forall>q \<in> set X. plain q)"

text \<open>
  A tree in which every directory lists its names in increasing order of their code
  units, the order in which \<^verbatim>\<open>readdir\<close> returns a sorted listing.
\<close>

fun increasing :: "string list \<Rightarrow> bool" where
  "increasing (m # n # rest) = (str_less m n \<and> increasing (n # rest))"
| "increasing _ = True"

function listing_sorted :: "fsnode \<Rightarrow> bool"
  and entries_sorted :: "(string \<times> fsnode) list \<Rightarrow> bool"
where
  "listing_sorted (Directory entries) = (increasing (map fst entries) \<and> entries_sorted entries)"
| "listing_sorted Unreadable = True"
| "listing_sorted RegularFile = True"
| "listing_sorted Special = True"
| "entries_sorted [] = True"
| "entries_sorted ((m, node) # rest) = (listing_sorted node \<and> entries_sorted rest)"
  by pat_completeness auto
termination
  by (relation "measure (\<lambda>x. case x of
        Inl node \<Rightarrow> 2 * size node
      | Inr es \<Rightarrow> 2 * size_list (size_prod (\<lambda>_. 0) size) es + 1)") auto

subsection \<open>Invariants of the merges\<close>

text \<open>The position \<open>k\<close> is one where \<open>key\<close> can be put into the run \<open>a\<close>.\<close>

definition fits :: "('a \<Rightarrow> 'a \<Rightarrow> int) \<Rightarrow> 'a \<Rightarrow> 'a list \<Rightarrow> nat \<Rightarrow> bool" where
  "fits cmp key a k =
     (k \<le> length a \<and> (0 < k \<longrightarrow> 0 \<le> cmp key (a ! (k - 1)))
      \<and> (k < length a \<longrightarrow> 0 \<le> cmp (a ! k) key))"

text \<open>
  The state of \<^verbatim>\<open>MergeLow\<close>: \<open>acc\<close> is what lies left of the two rests (the elements
  before the merge and those merged so far), \<open>post\<close> what lies right of the merge.
\<close>

definition lo_inv :: "('a \<Rightarrow> 'a \<Rightarrow> int) \<Rightarrow> 'a list \<Rightarrow> 'a list \<Rightarrow> 'a list \<Rightarrow> 'a list \<Rightarrow> bool" where
  "lo_inv cmp post acc as bs =
     (noDescent cmp (acc @ as) \<and> noDescent cmp (acc @ bs @ post)
      \<and> (as \<noteq> [] \<and> post \<noteq> [] \<longrightarrow> 0 \<le> cmp (hd post) (last as))
      \<and> (as \<noteq> [] \<and> bs \<noteq> [] \<longrightarrow> 0 \<le> cmp (last as) (last bs)))"

text \<open>The invariant on a state of the loop of \<^verbatim>\<open>MergeLow\<close>.\<close>

fun lo_inv_st ::
    "('a \<Rightarrow> 'a \<Rightarrow> int) \<Rightarrow> 'a list \<Rightarrow> 'a list \<Rightarrow> 'a merge_state \<Rightarrow> bool" where
  "lo_inv_st cmp pre post (mode, minGallop, out, as, bs) =
     (out \<noteq> [] \<and> lo_inv cmp post (pre @ out) as bs)"

text \<open>
  The result of a merge: not empty, and without descent between what lies left and
  right of it.
\<close>

definition merged_ok :: "('a \<Rightarrow> 'a \<Rightarrow> int) \<Rightarrow> 'a list \<Rightarrow> 'a list \<Rightarrow> 'a list \<Rightarrow> bool" where
  "merged_ok cmp pre post merged = (merged \<noteq> [] \<and> noDescent cmp (pre @ merged @ post))"

text \<open>
  The state of \<^verbatim>\<open>MergeHigh\<close>: \<open>pre\<close> is what lies left of the merge, \<open>acc\<close> what lies
  right of the two rests (the elements merged so far and those after the merge).
\<close>

definition hi_inv :: "('a \<Rightarrow> 'a \<Rightarrow> int) \<Rightarrow> 'a list \<Rightarrow> 'a list \<Rightarrow> 'a list \<Rightarrow> 'a list \<Rightarrow> bool" where
  "hi_inv cmp pre acc as bs =
     (noDescent cmp (pre @ as @ acc) \<and> noDescent cmp (bs @ acc)
      \<and> (bs \<noteq> [] \<and> pre \<noteq> [] \<longrightarrow> 0 \<le> cmp (hd bs) (last pre))
      \<and> (as \<noteq> [] \<and> bs \<noteq> [] \<longrightarrow> 0 \<le> cmp (hd as) (hd bs)))"

text \<open>The invariant on a state of the loop of \<^verbatim>\<open>MergeHigh\<close>.\<close>

fun hi_inv_st ::
    "('a \<Rightarrow> 'a \<Rightarrow> int) \<Rightarrow> 'a list \<Rightarrow> 'a list \<Rightarrow> 'a merge_state \<Rightarrow> bool" where
  "hi_inv_st cmp pre post (mode, minGallop, out, as, bs) =
     (out \<noteq> [] \<and> hi_inv cmp pre (out @ post) as bs)"

text \<open>Every pending run has an element and no descent.\<close>

definition runs_ok :: "('a \<Rightarrow> 'a \<Rightarrow> int) \<Rightarrow> 'a list list \<Rightarrow> bool" where
  "runs_ok cmp pendingRuns = (\<forall>run \<in> set pendingRuns. run \<noteq> [] \<and> noDescent cmp run)"


section \<open>Evaluation\<close>

lemmas path_eval = path_join_def parts_def from_parts_def path_sep_def basename_def
  path_relative_def resolve_parts_def isAbsolute_def

lemmas token_eval = tokenize_def to_token_def StringToNumber_def trim_def is_space_def
  is_digit_def code_unit_def round_double_def decimal_value_def toLowerCase_def lower_char_def
  char_of_def bit_Suc_0_iff

lemmas uri_eval = encodeURI_def encode_unit_def uri_kept_def percent_def hex_digit_def

section \<open>The directory walker\<close>

lemma entries_under_leaf: "\<not> isDirectory node \<Longrightarrow> entries_under dir node = []"
  by (cases node) auto

lemma walk_found:
  "walkForPdfs dir tree = Inr res \<Longrightarrow> res = found_paths dir tree"
  "walk_entries dir es = Inr res \<Longrightarrow> res = found_paths dir (Directory es)"
  unfolding found_paths_def
  by (induction dir tree and dir es arbitrary: res and res rule: walkForPdfs_walk_entries.induct)
     (auto simp: Let_def matches_def entries_under_leaf split: sum.splits if_splits)

text \<open>
  C1, as the specification states it: the walker returns the regular files ending in
  \<^verbatim>\<open>.pdf\<close> and every entry ending in \<^verbatim>\<open>jpg\<close>, directories included. A directory named
  \<^verbatim>\<open>jpg\<close> that holds one PDF refutes it: the directory is entered, not returned.
\<close>

theorem walkForPdfs_claimed_counterexample:
  "walkForPdfs ''/w/docs'' (Directory [(''jpg'', Directory [(''a.pdf'', RegularFile)])])
     = Inr [''/w/docs/jpg/a.pdf'']
   \<and> claimed_paths ''/w/docs'' (Directory [(''jpg'', Directory [(''a.pdf'', RegularFile)])])
     = [''/w/docs/jpg'', ''/w/docs/jpg/a.pdf'']
   \<and> set [''/w/docs/jpg/a.pdf'']
     \<noteq> set (claimed_paths ''/w/docs''
              (Directory [(''jpg'', Directory [(''a.pdf'', RegularFile)])]))"
  by (simp add: claimed_paths_def path_join_def endsWith_def from_parts_def parts_def
      path_sep_def matches_def)

text \<open>
  C1, amended: when the walk succeeds, the set of the paths it returns is the set of
  the entries anywhere under the root that are not directories and are either regular
  files whose name ends with \<^verbatim>\<open>.pdf\<close> or have a name that ends with \<^verbatim>\<open>jpg\<close>, whatever
  else they are.
\<close>

theorem walkForPdfs_result_set:
  "walkForPdfs dir tree = Inr res \<Longrightarrow> set res = set (found_paths dir tree)"
  using walk_found(1) by blast

theorem walkForPdfs_result_set_witness:
  "walkForPdfs ''/w/docs''
     (Directory [(''b.pdf'', RegularFile), (''pdf.pdf'', Special), (''notes.txt'', RegularFile),
                 (''jpg'', Directory [(''a.pdf'', RegularFile), (''link.jpg'', Special)])])
     = Inr [''/w/docs/b.pdf'', ''/w/docs/jpg/a.pdf'', ''/w/docs/jpg/link.jpg'']
   \<and> set [''/w/docs/b.pdf'', ''/w/docs/jpg/a.pdf'', ''/w/docs/jpg/link.jpg'']
     = set (found_paths ''/w/docs''
         (Directory [(''b.pdf'', RegularFile), (''pdf.pdf'', Special), (''notes.txt'', RegularFile),
                     (''jpg'', Directory [(''a.pdf'', RegularFile), (''link.jpg'', Special)])]))"
proof -
  have run: "walkForPdfs ''/w/docs''
     (Directory [(''b.pdf'', RegularFile), (''pdf.pdf'', Special), (''notes.txt'', RegularFile),
                 (''jpg'', Directory [(''a.pdf'', RegularFile), (''link.jpg'', Special)])])
     = Inr [''/w/docs/b.pdf'', ''/w/docs/jpg/a.pdf'', ''/w/docs/jpg/link.jpg'']"
    by (simp add: path_join_def endsWith_def from_parts_def parts_def path_sep_def matches_def)
  from walkForPdfs_result_set [OF run] run show ?thesis
    by simp
qed

section \<open>Tokens\<close>

lemma takeWhile_all: "list_all P (takeWhile P xs)"
  by (induction xs) simp_all

lemma match_runs_shape:
  "r \<in> set (match_runs s) \<Longrightarrow>
     r \<noteq> [] \<and> (list_all is_digit r \<or> list_all (\<lambda>c. \<not> is_digit c) r)"
proof (induction s rule: match_runs.induct)
  case 1
  then show ?case by simp
next
  case (2 c cs)
  show ?case
  proof (cases "is_digit c")
    case True
    with "2.prems" consider "r = c # takeWhile is_digit cs"
      | "r \<in> set (match_runs (dropWhile is_digit cs))"
      by auto
    then show ?thesis
    proof cases
      case 1
      with True show ?thesis by (simp add: takeWhile_all)
    next
      case 2
      with True "2.IH"(1) show ?thesis by blast
    qed
  next
    case False
    with "2.prems" consider "r = c # takeWhile (\<lambda>d. \<not> is_digit d) cs"
      | "r \<in> set (match_runs (dropWhile (\<lambda>d. \<not> is_digit d) cs))"
      by auto
    then show ?thesis
    proof cases
      case 1
      with False show ?thesis by (simp add: takeWhile_all)
    next
      case 2
      with False "2.IH"(2) show ?thesis by blast
    qed
  qed
qed

lemma digit_not_space: "is_digit c \<Longrightarrow> \<not> is_space c"
  by (auto simp: is_digit_def is_space_def)

lemma trim_digits: "list_all is_digit r \<Longrightarrow> trim r = r"
proof (cases r rule: rev_cases)
  case Nil
  then show ?thesis by (simp add: trim_def)
next
  case (snoc ys y)
  assume "list_all is_digit r"
  with snoc have "\<not> is_space y" "ys @ [y] = [] \<or> \<not> is_space (hd (ys @ [y]))"
    by (auto simp: list_all_iff digit_not_space hd_append hd_in_set)
  with snoc show ?thesis
    by (cases ys) (simp_all add: trim_def)
qed

lemma to_token_digits:
  "r \<noteq> [] \<Longrightarrow> list_all is_digit r \<Longrightarrow> to_token r = Num (round_double (decimal_value r))"
  by (simp add: to_token_def StringToNumber_def trim_digits)

lemma decimal_value_zeros:
  "decimal_value (dropWhile (\<lambda>c. c = CHR ''0'') r) = decimal_value r"
  by (induction r) (simp_all add: decimal_value_def code_unit_def)

lemma to_token_strip_zeros:
  assumes "r \<noteq> []" "list_all is_digit r \<or> list_all (\<lambda>c. \<not> is_digit c) r"
    and "t \<noteq> []" "list_all is_digit t \<or> list_all (\<lambda>c. \<not> is_digit c) t"
    and "strip_zeros r = strip_zeros t"
  shows "to_token r = to_token t"
proof -
  have mixed: False
    if "u \<noteq> []" "list_all is_digit u" "v \<noteq> []" "list_all (\<lambda>c. \<not> is_digit c) v"
      and eq: "strip_zeros u = strip_zeros v" for u v
  proof -
    from that have "\<not> list_all is_digit v"
      by (cases v) auto
    with that have "v = dropWhile (\<lambda>c. c = CHR ''0'') u"
      by (simp add: strip_zeros_def)
    then have "set v \<subseteq> set u"
      by (metis set_dropWhileD subsetI)
    with that show False
      by (cases v) (auto simp: list_all_iff)
  qed
  show ?thesis
  proof (cases "list_all is_digit r")
    case r: True
    show ?thesis
    proof (cases "list_all is_digit t")
      case True
      with r assms show ?thesis
        by (metis decimal_value_zeros strip_zeros_def to_token_digits)
    next
      case False
      with assms r mixed[of r t] show ?thesis by auto
    qed
  next
    case r: False
    show ?thesis
    proof (cases "list_all is_digit t")
      case True
      with assms r mixed[of t r] show ?thesis by auto
    next
      case False
      with r assms show ?thesis by (simp add: strip_zeros_def)
    qed
  qed
qed

lemma to_token_runs:
  assumes "map strip_zeros rs = map strip_zeros ts"
    and "\<forall>r \<in> set rs. r \<noteq> [] \<and> (list_all is_digit r \<or> list_all (\<lambda>c. \<not> is_digit c) r)"
    and "\<forall>r \<in> set ts. r \<noteq> [] \<and> (list_all is_digit r \<or> list_all (\<lambda>c. \<not> is_digit c) r)"
  shows "map to_token rs = map to_token ts"
  using assms
proof (induction rs arbitrary: ts)
  case Nil
  then show ?case by simp
next
  case (Cons r rs)
  then obtain t ts' where ts: "ts = t # ts'"
    by (cases ts) auto
  with Cons.prems have "to_token r = to_token t"
    by (intro to_token_strip_zeros) auto
  moreover from Cons ts have "map to_token rs = map to_token ts'"
    by auto
  ultimately show ?case using ts by simp
qed

text \<open>
  Names that differ only in leading zeros inside runs of digits get the same tokens
  (and so their records compare equal, \<open>comparator_leading_zeros\<close> below).
\<close>

lemma tokenize_leading_zeros:
  assumes "same_but_leading_zeros (basename p) (basename q)"
  shows "tokenize p = tokenize q"
proof -
  have "map to_token (match_runs (basename p)) = map to_token (match_runs (basename q))"
    using assms match_runs_shape unfolding same_but_leading_zeros_def
    by (intro to_token_runs) blast+
  moreover have "match_runs (basename p) = [] \<longleftrightarrow> match_runs (basename q) = []"
    using assms unfolding same_but_leading_zeros_def by (metis map_is_Nil_conv)
  ultimately show ?thesis
    by (auto simp: tokenize_def split: list.splits)
qed

lemma same_but_leading_zeros_example: "same_but_leading_zeros ''01.pdf'' ''1.pdf''"
  by (simp add: same_but_leading_zeros_def strip_zeros_def is_digit_def code_unit_def)

section \<open>The comparator\<close>

lemma compare_tokens_same: "compare_tokens xs xs = 0"
proof (induction xs)
  case Nil
  show ?case by simp
next
  case (Cons x xs)
  then show ?case by (cases x) simp_all
qed

lemma comparator_leading_zeros:
  assumes "same_but_leading_zeros (basename p) (basename q)"
    and "tokenize p = Inr ts" and "tokenize q = Inr us"
  shows "comparator \<lparr>name = p, tokens = ts\<rparr> \<lparr>name = q, tokens = us\<rparr> = 0"
  using tokenize_leading_zeros[OF assms(1)] assms(2,3)
  by (simp add: comparator_def compare_tokens_same)

text \<open>Two different texts at a position are compared as strings, by code units.\<close>

lemma compare_tokens_texts:
  "s \<noteq> t \<Longrightarrow> compare_tokens (Text s # xs) (Text t # ys) = (if str_less s t then - 1 else 1)"
  by simp

text \<open>Two different numbers at a position are compared by value.\<close>

lemma compare_tokens_numbers:
  "m \<noteq> n \<Longrightarrow>
     compare_tokens (Num (Finite m) # xs) (Num (Finite n) # ys) = (if m < n then - 1 else 1)"
  by simp

lemma compare_tokens_shorter: "compare_tokens xs (xs @ z # zs) = - 1"
proof (induction xs)
  case Nil
  show ?case by simp
next
  case (Cons x xs)
  then show ?case by (cases x) simp_all
qed

lemma compare_tokens_longer: "compare_tokens (xs @ z # zs) xs = 1"
proof (induction xs)
  case Nil
  show ?case by simp
next
  case (Cons x xs)
  then show ?case by (cases x) simp_all
qed

text \<open>
  C4: records with equal token sequences compare equal; when the tokens of one are a
  strict prefix of the tokens of the other (the empty sequence against a non-empty
  one included), the shorter record compares below and the longer one above; two
  records without tokens compare equal.
\<close>

theorem comparator_equal_and_prefix:
  "(tokens a = tokens b \<longrightarrow> comparator a b = 0)
   \<and> (strict_prefix (tokens a) (tokens b) \<longrightarrow> comparator a b = - 1 \<and> comparator b a = 1)
   \<and> (tokens a = [] \<and> tokens b = [] \<longrightarrow> comparator a b = 0)"
proof (intro conjI impI)
  assume "tokens a = tokens b"
  then show "comparator a b = 0"
    by (simp add: comparator_def compare_tokens_same)
next
  assume "strict_prefix (tokens a) (tokens b)"
  then obtain z zs where "tokens b = tokens a @ z # zs"
    by (auto simp: strict_prefix_def prefix_def neq_Nil_conv)
  then show "comparator a b = - 1" "comparator b a = 1"
    by (simp_all add: comparator_def compare_tokens_shorter compare_tokens_longer)
next
  assume "tokens a = [] \<and> tokens b = []"
  then show "comparator a b = 0"
    by (simp add: comparator_def)
qed

theorem comparator_equal_and_prefix_witness:
  "comparator \<lparr>name = ''/w/docs/a01.pdf'', tokens = [Text ''a'', Num (Finite 1), Text ''.pdf'']\<rparr>
              \<lparr>name = ''/w/docs/a1.pdf'', tokens = [Text ''a'', Num (Finite 1), Text ''.pdf'']\<rparr> = 0
   \<and> comparator \<lparr>name = ''/w/docs/a'', tokens = [Text ''a'']\<rparr>
                \<lparr>name = ''/w/docs/a1.pdf'', tokens = [Text ''a'', Num (Finite 1), Text ''.pdf'']\<rparr> = - 1
   \<and> comparator \<lparr>name = ''/w/docs/a1.pdf'', tokens = [Text ''a'', Num (Finite 1), Text ''.pdf'']\<rparr>
                \<lparr>name = ''/w/docs/a'', tokens = [Text ''a'']\<rparr> = 1
   \<and> comparator \<lparr>name = ''p'', tokens = []\<rparr> \<lparr>name = ''q'', tokens = []\<rparr> = 0"
proof -
  let ?padded = "\<lparr>name = ''/w/docs/a01.pdf'', tokens = [Text ''a'', Num (Finite 1), Text ''.pdf'']\<rparr>"
  let ?plain = "\<lparr>name = ''/w/docs/a1.pdf'', tokens = [Text ''a'', Num (Finite 1), Text ''.pdf'']\<rparr>"
  let ?short = "\<lparr>name = ''/w/docs/a'', tokens = [Text ''a'']\<rparr>"
  let ?p = "\<lparr>name = ''p'', tokens = []\<rparr>" and ?q = "\<lparr>name = ''q'', tokens = []\<rparr>"
  have same: "tokens ?padded = tokens ?plain"
    by simp
  have shorter: "strict_prefix (tokens ?short) (tokens ?plain)"
    by (simp add: strict_prefix_def)
  have none: "tokens ?p = [] \<and> tokens ?q = []"
    by simp
  from comparator_equal_and_prefix [of ?padded ?plain] same have "comparator ?padded ?plain = 0"
    by blast
  moreover from comparator_equal_and_prefix [of ?short ?plain] shorter
  have "comparator ?short ?plain = - 1 \<and> comparator ?plain ?short = 1"
    by blast
  moreover from comparator_equal_and_prefix [of ?p ?q] none have "comparator ?p ?q = 0"
    by blast
  ultimately show ?thesis
    by blast
qed

text \<open>
  C2 says that a number and a text at the same position are compared as text. The
  files \<^verbatim>\<open>1.pdf\<close> and \<^verbatim>\<open>a.pdf\<close> give the tokens \<open>1\<close> and \<^verbatim>\<open>a.pdf\<close> at the first position;
  as text \<^verbatim>\<open>1\<close> is below \<^verbatim>\<open>a.pdf\<close>, but the comparator answers "above": \<^verbatim>\<open>x < y\<close> converts
  the text to \<^verbatim>\<open>NaN\<close> and is false.
\<close>

theorem compare_tokens_number_against_text:
  "tokenize ''/w/docs/1.pdf'' = Inr [Num (Finite 1), Text ''.pdf'']
   \<and> tokenize ''/w/docs/a.pdf'' = Inr [Text ''a.pdf'']
   \<and> compare_tokens [Num (Finite 1), Text ''.pdf''] [Text ''a.pdf''] = 1
   \<and> compare_tokens [Text ''a.pdf''] [Num (Finite 1), Text ''.pdf''] = 1
   \<and> str_less ''1'' ''a.pdf''"
  by (simp add: path_eval token_eval)

text \<open>
  C3 says that the comparator is a total preorder. On the records of \<^verbatim>\<open>1.pdf\<close> and
  \<^verbatim>\<open>a.pdf\<close> it answers "above" in both directions, so neither may stand before the
  other.
\<close>

theorem comparator_not_total:
  "make_objs [''/w/docs/1.pdf'', ''/w/docs/a.pdf'']
     = Inr [\<lparr>name = ''/w/docs/1.pdf'', tokens = [Num (Finite 1), Text ''.pdf'']\<rparr>,
            \<lparr>name = ''/w/docs/a.pdf'', tokens = [Text ''a.pdf'']\<rparr>]
   \<and> \<not> precedes \<lparr>name = ''/w/docs/1.pdf'', tokens = [Num (Finite 1), Text ''.pdf'']\<rparr>
                  \<lparr>name = ''/w/docs/a.pdf'', tokens = [Text ''a.pdf'']\<rparr>
   \<and> \<not> precedes \<lparr>name = ''/w/docs/a.pdf'', tokens = [Text ''a.pdf'']\<rparr>
                  \<lparr>name = ''/w/docs/1.pdf'', tokens = [Num (Finite 1), Text ''.pdf'']\<rparr>"
  by (simp add: precedes_def comparator_def path_eval token_eval)

text \<open>The files \<^verbatim>\<open>a1.pdf\<close>, \<^verbatim>\<open>a2.pdf\<close>, \<^verbatim>\<open>a10.pdf\<close> are sorted to this order from every initial order.\<close>

lemma tokenize_a1_a2_a10:
  "make_objs [''/w/docs/a1.pdf'', ''/w/docs/a2.pdf'', ''/w/docs/a10.pdf'']
     = Inr [\<lparr>name = ''/w/docs/a1.pdf'', tokens = [Text ''a'', Num (Finite 1), Text ''.pdf'']\<rparr>,
            \<lparr>name = ''/w/docs/a2.pdf'', tokens = [Text ''a'', Num (Finite 2), Text ''.pdf'']\<rparr>,
            \<lparr>name = ''/w/docs/a10.pdf'', tokens = [Text ''a'', Num (Finite 10), Text ''.pdf'']\<rparr>]"
  by (simp add: path_eval token_eval)

lemma array_sort_a1_a2_a10:
  assumes "a1 = \<lparr>name = ''/w/docs/a1.pdf'', tokens = [Text ''a'', Num (Finite 1), Text ''.pdf'']\<rparr>"
    and "a2 = \<lparr>name = ''/w/docs/a2.pdf'', tokens = [Text ''a'', Num (Finite 2), Text ''.pdf'']\<rparr>"
    and "a10 = \<lparr>name = ''/w/docs/a10.pdf'', tokens = [Text ''a'', Num (Finite 10), Text ''.pdf'']\<rparr>"
  shows "array_sort comparator [a1, a2, a10] = [a1, a2, a10]"
    and "array_sort comparator [a1, a10, a2] = [a1, a2, a10]"
    and "array_sort comparator [a2, a1, a10] = [a1, a2, a10]"
    and "array_sort comparator [a2, a10, a1] = [a1, a2, a10]"
    and "array_sort comparator [a10, a1, a2] = [a1, a2, a10]"
    and "array_sort comparator [a10, a2, a1] = [a1, a2, a10]"
  unfolding assms by code_simp+


section \<open>Sorting\<close>

lemma run_extend_ascending:
  "successively (\<lambda>x y. 0 \<le> cmp y x) (prev # take (run_extend cmp False prev rest) rest)"
  by (induction rest arbitrary: prev) (auto simp: Let_def)

lemma run_extend_descending:
  "successively (\<lambda>x y. cmp y x < 0) (prev # take (run_extend cmp True prev rest) rest)"
  by (induction rest arbitrary: prev) (auto simp: Let_def)

lemma run_extend_whole:
  "successively (\<lambda>x y. 0 \<le> cmp y x) (prev # rest) \<Longrightarrow> run_extend cmp False prev rest = length rest"
  by (induction rest arbitrary: prev) (auto simp: Let_def)

lemma countAndMakeRun_sorted:
  assumes "noDescent cmp a" "2 \<le> length a"
  shows "countAndMakeRun cmp a = (length a, a)"
proof -
  from assms(2) obtain x y rest where a: "a = x # y # rest"
    by (cases a; cases "tl a") auto
  with assms(1) have "0 \<le> cmp y x" "successively (\<lambda>x y. 0 \<le> cmp y x) (y # rest)"
    by (auto simp: noDescent_def)
  then show ?thesis
    using a by (simp add: Let_def run_extend_whole)
qed

lemma binaryInsertionSort_done: "length a \<le> start \<Longrightarrow> binaryInsertionSort cmp a start = a"
  by (subst binaryInsertionSort.simps) simp

lemma countAndMakeRun_run:
  assumes "asymmetric cmp" "countAndMakeRun cmp a = (n, a')" "2 \<le> length a"
  shows "length a' = length a \<and> n \<le> length a \<and> 0 < n \<and> noDescent cmp (take n a')"
proof -
  from assms(3) obtain x y rest where a: "a = x # y # rest"
    by (cases a; cases "tl a") auto
  show ?thesis
  proof (cases "cmp y x < 0")
    case True
    let ?k = "run_extend cmp True y rest"
    have n: "n = 2 + ?k" and a': "a' = rev (take n a) @ drop n a"
      using assms(2) True a by (auto simp: Let_def)
    have k: "?k \<le> length rest" by (rule run_extend_le)
    have "successively (\<lambda>x y. cmp y x < 0) (x # y # take ?k rest)"
      using True run_extend_descending[of cmp y rest] by simp
    then have "successively (\<lambda>x y. cmp x y < 0) (rev (x # y # take ?k rest))"
      by (subst successively_rev) simp
    then have "successively (\<lambda>x y. 0 \<le> cmp y x) (rev (x # y # take ?k rest))"
      by (rule successively_mono) (use assms(1) in \<open>auto simp: asymmetric_def\<close>)
    moreover have "take n a = x # y # take ?k rest" using n a by simp
    ultimately have "noDescent cmp (take n a')"
      using n a' k a by (simp add: noDescent_def)
    then show ?thesis using n a' k a by simp
  next
    case False
    let ?k = "run_extend cmp False y rest"
    have n: "n = 2 + ?k" and a': "a' = a"
      using assms(2) False a by (auto simp: Let_def)
    have k: "?k \<le> length rest" by (rule run_extend_le)
    have "successively (\<lambda>x y. 0 \<le> cmp y x) (x # y # take ?k rest)"
      using False run_extend_ascending[of cmp y rest] by simp
    then show ?thesis using n a' k a by (simp add: noDescent_def)
  qed
qed

lemma binary_search_bracket:
  assumes "l \<le> r"
    and "l = lo \<or> 0 \<le> cmp pivot (a ! (l - 1))"
    and "r = hi \<or> cmp pivot (a ! r) < 0"
  shows "(binary_search cmp pivot a l r = lo \<or> 0 \<le> cmp pivot (a ! (binary_search cmp pivot a l r - 1)))
       \<and> (binary_search cmp pivot a l r = hi \<or> cmp pivot (a ! binary_search cmp pivot a l r) < 0)"
  using assms
proof (induction cmp pivot a l r rule: binary_search.induct)
  case (1 cmp pivot a left right)
  show ?case
  proof (cases "left < right")
    case True
    let ?mid = "left + (right - left) div 2"
    have m: "left \<le> ?mid" "?mid < right" using True by auto
    show ?thesis
    proof (cases "cmp pivot (a ! ?mid) < 0")
      case c: True
      have "(binary_search cmp pivot a left ?mid = lo \<or> 0 \<le> cmp pivot (a ! (binary_search cmp pivot a left ?mid - 1)))
       \<and> (binary_search cmp pivot a left ?mid = hi \<or> cmp pivot (a ! binary_search cmp pivot a left ?mid) < 0)"
        using "1.IH"(1)[OF True refl c] m "1.prems" c by simp
      then show ?thesis
        using True c by (subst (1 2 3 4) binary_search.simps) (simp add: Let_def)
    next
      case c: False
      have "(binary_search cmp pivot a (?mid + 1) right = lo \<or> 0 \<le> cmp pivot (a ! (binary_search cmp pivot a (?mid + 1) right - 1)))
       \<and> (binary_search cmp pivot a (?mid + 1) right = hi \<or> cmp pivot (a ! binary_search cmp pivot a (?mid + 1) right) < 0)"
        using "1.IH"(2)[OF True refl c] m "1.prems" c by simp
      then show ?thesis
        using True c by (subst (1 2 3 4) binary_search.simps) (simp add: Let_def)
    qed
  next
    case False
    with "1.prems" have "left = right" by simp
    then show ?thesis
      using "1.prems" by (subst (1 2 3 4) binary_search.simps) simp
  qed
qed

lemma successively_insert:
  assumes "successively P (xs @ ys)"
    and "xs = [] \<or> P (last xs) v"
    and "ys = [] \<or> P v (hd ys)"
  shows "successively P (xs @ [v] @ ys)"
  using assms by (auto simp: successively_append_iff successively_Cons)

lemma insert_at_sorted:
  assumes asym: "asymmetric cmp"
    and start: "start < length a"
    and sorted: "noDescent cmp (take start a)"
  shows "noDescent cmp (take (Suc start) (insert_at a (binary_search cmp (a ! start) a 0 start) start))"
proof -
  let ?pivot = "a ! start"
  let ?p = "binary_search cmp ?pivot a 0 start"
  have p: "?p \<le> start" using binary_search_bounds[of 0 start cmp ?pivot a] by simp
  have br: "(?p = 0 \<or> 0 \<le> cmp ?pivot (a ! (?p - 1))) \<and> (?p = start \<or> cmp ?pivot (a ! ?p) < 0)"
    using binary_search_bracket[of 0 start 0 cmp ?pivot a start] by simp
  let ?xs = "take ?p a" and ?ys = "drop ?p (take start a)"
  have split: "take start a = ?xs @ ?ys"
    using p by (metis append_take_drop_id min.absorb1 take_take)
  have "insert_at a ?p start = (?xs @ [?pivot] @ ?ys) @ drop (Suc start) a"
    by (simp add: insert_at_def)
  moreover have "length (?xs @ [?pivot] @ ?ys) = Suc start"
    using p start by simp
  ultimately have tk: "take (Suc start) (insert_at a ?p start) = ?xs @ [?pivot] @ ?ys"
    by (metis append_eq_conv_conj)
  have "successively (\<lambda>x y. 0 \<le> cmp y x) (?xs @ [?pivot] @ ?ys)"
  proof (rule successively_insert)
    show "successively (\<lambda>x y. 0 \<le> cmp y x) (?xs @ ?ys)"
      using sorted split by (simp add: noDescent_def)
    show "?xs = [] \<or> 0 \<le> cmp ?pivot (last ?xs)"
    proof (cases "?p = 0")
      case True then show ?thesis by simp
    next
      case False
      have "length ?xs = ?p"
        using p start by simp
      with False have "last ?xs = ?xs ! (?p - 1)"
        by (metis last_conv_nth length_0_conv)
      also have "\<dots> = a ! (?p - 1)"
        using False by simp
      finally have "last ?xs = a ! (?p - 1)" .
      with br False show ?thesis by simp
    qed
    show "?ys = [] \<or> 0 \<le> cmp (hd ?ys) ?pivot"
    proof (cases "?p = start")
      case True then show ?thesis by simp
    next
      case False
      with p have lt: "?p < start" by simp
      then have "hd ?ys = a ! ?p"
        using start by (simp add: hd_drop_conv_nth)
      moreover from br False have "cmp ?pivot (a ! ?p) < 0" by simp
      ultimately show ?thesis using asym by (simp add: asymmetric_def)
    qed
  qed
  with tk show ?thesis by (simp add: noDescent_def)
qed

lemma binaryInsertionSort_sorted:
  "asymmetric cmp \<Longrightarrow> start \<le> length a \<Longrightarrow> noDescent cmp (take start a) \<Longrightarrow>
     noDescent cmp (binaryInsertionSort cmp a start)"
proof (induction cmp a start rule: binaryInsertionSort.induct)
  case (1 cmp a start)
  show ?case
  proof (cases "start < length a")
    case True
    let ?p = "binary_search cmp (a ! start) a 0 start"
    have p: "?p \<le> start"
      using binary_search_bounds[of 0 start cmp "a ! start" a] by simp
    have len: "length (insert_at a ?p start) = length a"
      using p True by (rule length_insert_at)
    have "noDescent cmp (take (Suc start) (insert_at a ?p start))"
      using "1.prems"(1) True "1.prems"(3) by (rule insert_at_sorted)
    with "1.IH"[OF True refl refl "1.prems"(1)] len True
    have "noDescent cmp (binaryInsertionSort cmp (insert_at a ?p start) (Suc start))"
      by simp
    then show ?thesis
      using True by (subst binaryInsertionSort.simps) (simp add: Let_def)
  next
    case False
    with "1.prems" show ?thesis
      by (subst binaryInsertionSort.simps) simp
  qed
qed

lemma gallop_offsets_spec:
  assumes "further lastOfs" "lastOfs < offset" "lastOfs < maxOfs"
    and "gallop_offsets further lastOfs offset maxOfs = (l, r)"
  shows "further l \<and> l < r \<and> l < maxOfs \<and> (r < maxOfs \<longrightarrow> \<not> further r)"
  using assms
proof (induction further lastOfs offset maxOfs rule: gallop_offsets.induct)
  case (1 further lastOfs offset maxOfs)
  show ?case
  proof (cases "offset < maxOfs \<and> further offset")
    case True
    then have "gallop_offsets further offset (2 * offset + 1) maxOfs = (l, r)"
      using "1.prems"(4) by (subst (asm) gallop_offsets.simps) simp
    with "1.IH" True show ?thesis by simp
  next
    case False
    then have "(l, r) = (lastOfs, offset)"
      using "1.prems"(4) by (subst (asm) gallop_offsets.simps) (auto split: if_splits)
    with False "1.prems" show ?thesis by auto
  qed
qed

lemma gallop_search_spec:
  assumes "l \<le> r"
    and "l = 0 \<or> right_of (l - 1)"
    and "r = n \<or> \<not> right_of r"
  shows "l \<le> gallop_search right_of l r \<and> gallop_search right_of l r \<le> r
       \<and> (gallop_search right_of l r = 0 \<or> right_of (gallop_search right_of l r - 1))
       \<and> (gallop_search right_of l r = n \<or> \<not> right_of (gallop_search right_of l r))"
  using assms
proof (induction right_of l r rule: gallop_search.induct)
  case (1 right_of lastOfs offset)
  show ?case
  proof (cases "lastOfs < offset")
    case True
    let ?m = "lastOfs + (offset - lastOfs) div 2"
    have m: "lastOfs \<le> ?m" "?m < offset" using True by auto
    show ?thesis
    proof (cases "right_of ?m")
      case c: True
      let ?k = "gallop_search right_of (?m + 1) offset"
      have "?m + 1 \<le> ?k \<and> ?k \<le> offset \<and> (?k = 0 \<or> right_of (?k - 1)) \<and> (?k = n \<or> \<not> right_of ?k)"
        using "1.IH"(1)[OF True refl c] m "1.prems" c by auto
      moreover have "gallop_search right_of lastOfs offset = ?k"
        using True c by (subst gallop_search.simps) (simp add: Let_def)
      ultimately show ?thesis using m by auto
    next
      case c: False
      let ?k = "gallop_search right_of lastOfs ?m"
      have "lastOfs \<le> ?k \<and> ?k \<le> ?m \<and> (?k = 0 \<or> right_of (?k - 1)) \<and> (?k = n \<or> \<not> right_of ?k)"
        using "1.IH"(2)[OF True refl c] m "1.prems" c by auto
      moreover have "gallop_search right_of lastOfs offset = ?k"
        using True c by (subst gallop_search.simps) (simp add: Let_def)
      ultimately show ?thesis using m by auto
    qed
  next
    case False
    with "1.prems" have "lastOfs = offset" by simp
    moreover have "gallop_search right_of lastOfs offset = offset"
      using False by (subst gallop_search.simps) simp
    ultimately show ?thesis using "1.prems" by simp
  qed
qed

lemma gallop_spec:
  assumes "hint < n"
  shows "gallop right_of n hint \<le> n
       \<and> (0 < gallop right_of n hint \<longrightarrow> right_of (gallop right_of n hint - 1))
       \<and> (gallop right_of n hint < n \<longrightarrow> \<not> right_of (gallop right_of n hint))"
proof (cases "right_of hint")
  case True
  obtain l r where lr: "gallop_offsets (\<lambda>ofs. right_of (hint + ofs)) 0 1 (n - hint) = (l, r)"
    by (cases "gallop_offsets (\<lambda>ofs. right_of (hint + ofs)) 0 1 (n - hint)")
  have spec: "right_of (hint + l) \<and> l < r \<and> l < n - hint \<and> (r < n - hint \<longrightarrow> \<not> right_of (hint + r))"
    using gallop_offsets_spec[of "\<lambda>ofs. right_of (hint + ofs)" 0 1 "n - hint" l r] True assms lr
    by simp
  let ?l = "l + hint + 1" and ?r = "min r (n - hint) + hint"
  have g: "gallop right_of n hint = gallop_search right_of ?l ?r"
    using True lr by (simp add: gallop_def)
  have 1: "?l \<le> ?r" using spec by auto
  have 2: "?l = 0 \<or> right_of (?l - 1)" using spec by (simp add: add.commute)
  have 3: "?r = n \<or> \<not> right_of ?r"
  proof (cases "r < n - hint")
    case True
    with spec show ?thesis by (simp add: add.commute min_def)
  next
    case False
    with assms show ?thesis by (simp add: min_def)
  qed
  from gallop_search_spec[OF 1 2 3] have
    "?l \<le> gallop right_of n hint \<and> gallop right_of n hint \<le> ?r
       \<and> (gallop right_of n hint = 0 \<or> right_of (gallop right_of n hint - 1))
       \<and> (gallop right_of n hint = n \<or> \<not> right_of (gallop right_of n hint))"
    unfolding g .
  moreover have "?r \<le> n" using assms by (auto simp: min_def)
  ultimately show ?thesis by auto
next
  case False
  obtain l r where lr: "gallop_offsets (\<lambda>ofs. \<not> right_of (hint - ofs)) 0 1 (hint + 1) = (l, r)"
    by (cases "gallop_offsets (\<lambda>ofs. \<not> right_of (hint - ofs)) 0 1 (hint + 1)")
  have spec: "\<not> right_of (hint - l) \<and> l < r \<and> l < hint + 1 \<and> (r < hint + 1 \<longrightarrow> right_of (hint - r))"
    using gallop_offsets_spec[of "\<lambda>ofs. \<not> right_of (hint - ofs)" 0 1 "hint + 1" l r] False lr
    by simp
  let ?l = "hint + 1 - min r (hint + 1)" and ?r = "hint - l"
  have g: "gallop right_of n hint = gallop_search right_of ?l ?r"
    using False lr by (simp add: gallop_def)
  have 1: "?l \<le> ?r" using spec by (auto simp: min_def)
  have 2: "?l = 0 \<or> right_of (?l - 1)"
  proof (cases "r < hint + 1")
    case True
    with spec show ?thesis by (simp add: min_def)
  next
    case False
    then show ?thesis by (simp add: min_def)
  qed
  have 3: "?r = n \<or> \<not> right_of ?r" using spec by simp
  from gallop_search_spec[OF 1 2 3] have
    "?l \<le> gallop right_of n hint \<and> gallop right_of n hint \<le> ?r
       \<and> (gallop right_of n hint = 0 \<or> right_of (gallop right_of n hint - 1))
       \<and> (gallop right_of n hint = n \<or> \<not> right_of (gallop right_of n hint))"
    unfolding g .
  moreover have "?r < n" using assms by simp
  ultimately show ?thesis by auto
qed

lemma gallopRight_fits:
  assumes "asymmetric cmp" "hint < length a"
  shows "fits cmp key a (gallopRight cmp key a hint)"
  using gallop_spec[OF assms(2), of "\<lambda>i. \<not> cmp key (a ! i) < 0"] assms(1)
  unfolding gallopRight_def fits_def asymmetric_def
  by (metis not_less)

lemma gallopLeft_fits:
  assumes "asymmetric cmp" "hint < length a"
  shows "fits cmp key a (gallopLeft cmp key a hint)"
  using gallop_spec[OF assms(2), of "\<lambda>i. cmp (a ! i) key < 0"] assms(1)
  unfolding gallopLeft_def fits_def asymmetric_def
  by (metis not_less)

lemma noDescent_append:
  "noDescent cmp (xs @ ys) \<longleftrightarrow>
     noDescent cmp xs \<and> noDescent cmp ys \<and> (xs = [] \<or> ys = [] \<or> 0 \<le> cmp (hd ys) (last xs))"
  by (auto simp: noDescent_def successively_append_iff)

lemma noDescent_Cons:
  "noDescent cmp (x # ys) \<longleftrightarrow> noDescent cmp ys \<and> (ys = [] \<or> 0 \<le> cmp (hd ys) x)"
  by (cases ys) (auto simp: noDescent_def)

lemma noDescent_Nil: "noDescent cmp []"
  by (simp add: noDescent_def)

lemmas noDescent_simps = noDescent_append noDescent_Cons noDescent_Nil hd_append last_append

lemma fits_split:
  assumes "fits cmp key a k"
  obtains xs ys where "a = xs @ ys" "take k a = xs" "drop k a = ys" "length xs = k"
    "xs \<noteq> [] \<longrightarrow> 0 \<le> cmp key (last xs)" "ys \<noteq> [] \<longrightarrow> 0 \<le> cmp (hd ys) key"
proof
  show "a = take k a @ drop k a" by simp
  show "take k a = take k a" "drop k a = drop k a" by simp_all
  show "length (take k a) = k" using assms by (simp add: fits_def)
  show "take k a \<noteq> [] \<longrightarrow> 0 \<le> cmp key (last (take k a))"
  proof
    assume ne: "take k a \<noteq> []"
    then have "0 < k" by (cases k) auto
    moreover have "last (take k a) = a ! (k - 1)"
      using ne assms by (simp add: last_conv_nth fits_def)
    ultimately show "0 \<le> cmp key (last (take k a))"
      using assms by (simp add: fits_def)
  qed
  show "drop k a \<noteq> [] \<longrightarrow> 0 \<le> cmp (hd (drop k a)) key"
  proof
    assume "drop k a \<noteq> []"
    then have "k < length a" by simp
    then show "0 \<le> cmp (hd (drop k a)) key"
      using assms by (simp add: hd_drop_conv_nth fits_def)
  qed
qed

lemma lo_take_b:
  assumes "lo_inv cmp post acc as (b # bs)" "as = [] \<or> 0 \<le> cmp (hd as) b"
  shows "lo_inv cmp post (acc @ [b]) as bs"
  using assms unfolding lo_inv_def
  by (auto simp: noDescent_simps split: if_splits)

lemma lo_take_a:
  assumes "lo_inv cmp post acc (a # as) bs" "bs \<noteq> []" "0 \<le> cmp (hd bs) a"
  shows "lo_inv cmp post (acc @ [a]) as bs"
  using assms unfolding lo_inv_def
  by (auto simp: noDescent_simps split: if_splits)

lemma lo_chunk_a:
  assumes "lo_inv cmp post acc (xs @ ys) bs" "bs \<noteq> []" "xs \<noteq> [] \<longrightarrow> 0 \<le> cmp (hd bs) (last xs)"
  shows "lo_inv cmp post (acc @ xs) ys bs"
  using assms unfolding lo_inv_def
  by (auto simp: noDescent_simps split: if_splits)

lemma lo_chunk_b:
  assumes "lo_inv cmp post acc as (xs @ ys)" "as \<noteq> []" "xs \<noteq> [] \<longrightarrow> 0 \<le> cmp (hd as) (last xs)"
  shows "lo_inv cmp post (acc @ xs) as ys"
  using assms unfolding lo_inv_def
  by (auto simp: noDescent_simps split: if_splits)

lemma lo_succeed:
  assumes "lo_inv cmp post acc as bs" "as = [] \<or> bs = []"
  shows "noDescent cmp (acc @ as @ bs @ post)"
  using assms unfolding lo_inv_def
  by (auto simp: noDescent_simps split: if_splits)

lemma lo_copyB:
  assumes "lo_inv cmp post acc [a] bs" "bs \<noteq> []"
  shows "noDescent cmp (acc @ bs @ [a] @ post)"
  using assms unfolding lo_inv_def
  by (auto simp: noDescent_simps split: if_splits)

lemma lo_straight_step_inv:
  assumes asym: "asymmetric cmp" and out: "out \<noteq> []"
    and inv: "lo_inv cmp post (pre @ out) as bs"
  shows "case lo_straight_step cmp mg nA nB out as bs of
           Inl (merged, g) \<Rightarrow> merged_ok cmp pre post merged
         | Inr st \<Rightarrow> lo_inv_st cmp pre post st"
proof (cases "as = [] \<or> bs = []")
  case True
  from lo_succeed[OF inv True] True out show ?thesis
    by (simp add: lo_straight_step_def merged_ok_def)
next
  case False
  then obtain a as' b bs' where as: "as = a # as'" and bs: "bs = b # bs'"
    by (cases as; cases bs) auto
  show ?thesis
  proof (cases "cmp b a < 0")
    case True
    with asym have "0 \<le> cmp a b" by (simp add: asymmetric_def)
    with inv have inv': "lo_inv cmp post ((pre @ out) @ [b]) as bs'"
      unfolding bs by (intro lo_take_b) (simp_all add: as)
    show ?thesis
    proof (cases "bs' = []")
      case e: True
      from lo_succeed[OF inv'] e have "noDescent cmp (pre @ (out @ [b] @ as) @ post)" by simp
      with True e show ?thesis
        by (simp add: lo_straight_step_def merged_ok_def as bs)
    next
      case e: False
      with True inv' show ?thesis
        by (simp add: lo_straight_step_def as bs)
    qed
  next
    case c: False
    then have "0 \<le> cmp b a" by simp
    with inv have inv': "lo_inv cmp post ((pre @ out) @ [a]) as' bs"
      unfolding as by (intro lo_take_a) (simp_all add: bs)
    show ?thesis
    proof (cases "length as' = 1")
      case True
      then obtain a' where as': "as' = [a']" by (cases as') auto
      from lo_copyB[OF inv'[unfolded as']] have "noDescent cmp (pre @ (out @ [a] @ bs @ as') @ post)"
        by (simp add: bs as')
      with c True show ?thesis
        by (simp add: lo_straight_step_def merged_ok_def as bs)
    next
      case False
      with c inv' show ?thesis
        by (simp add: lo_straight_step_def as bs)
    qed
  qed
qed

lemma lo_gallop_in_A_inv:
  assumes asym: "asymmetric cmp" and out: "out \<noteq> []"
    and inv: "lo_inv cmp post (pre @ out) as bs" and ne: "as \<noteq> []" "bs \<noteq> []"
  shows "case lo_gallop_in_A cmp out as bs of
           Inl merged \<Rightarrow> merged_ok cmp pre post merged
         | Inr (n, out', as', bs') \<Rightarrow>
             out' \<noteq> [] \<and> lo_inv cmp post (pre @ out') as' bs' \<and> as' \<noteq> [] \<and> bs' \<noteq> []"
proof -
  let ?k = "gallopRight cmp (hd bs) as 0"
  have "fits cmp (hd bs) as ?k"
    using asym ne by (intro gallopRight_fits) simp_all
  then obtain xs ys where split: "as = xs @ ys" "take ?k as = xs" "drop ?k as = ys" "length xs = ?k"
    and xs: "xs \<noteq> [] \<longrightarrow> 0 \<le> cmp (hd bs) (last xs)" and ys: "ys \<noteq> [] \<longrightarrow> 0 \<le> cmp (hd ys) (hd bs)"
    by (rule fits_split)
  obtain b bs' where bs: "bs = b # bs'" using ne by (cases bs) auto
  have k: "0 < ?k \<longleftrightarrow> xs \<noteq> []" unfolding split(4)[symmetric] by simp
  have inv1: "lo_inv cmp post ((pre @ out) @ xs) ys bs"
    using inv ne(2) xs unfolding split(1) by (rule lo_chunk_a)
  consider (copyB) "xs \<noteq> []" "length ys = 1" | (succeed) "xs \<noteq> []" "ys = []"
    | (further) "ys \<noteq> []" "\<not> (xs \<noteq> [] \<and> length ys = 1)"
    using ne(1) split(1) by (cases "ys = []") auto
  then show ?thesis
  proof cases
    case copyB
    then obtain a where a: "ys = [a]" by (cases ys) auto
    from lo_copyB[OF inv1[unfolded a] ne(2)] have "noDescent cmp (pre @ (out @ xs @ bs @ ys) @ post)"
      by (simp add: a)
    with copyB out show ?thesis
      unfolding lo_gallop_in_A_def Let_def split(2,3) k by (simp add: merged_ok_def)
  next
    case succeed
    from lo_succeed[OF inv1] succeed have "noDescent cmp (pre @ ((out @ xs) @ bs) @ post)"
      by simp
    with succeed out show ?thesis
      unfolding lo_gallop_in_A_def Let_def split(2,3) k by (simp add: merged_ok_def)
  next
    case further
    have inv2: "lo_inv cmp post (((pre @ out) @ xs) @ [b]) ys bs'"
      using inv1 ys further(1) unfolding bs by (intro lo_take_b) simp_all
    show ?thesis
    proof (cases "bs' = []")
      case True
      from lo_succeed[OF inv2] True have "noDescent cmp (pre @ ((out @ xs) @ [b] @ ys) @ post)"
        by simp
      with True further out show ?thesis
        unfolding lo_gallop_in_A_def Let_def split(2,3) k by (auto simp: merged_ok_def bs)
    next
      case False
      with inv2 further out show ?thesis
        unfolding lo_gallop_in_A_def Let_def split(2,3) k by (auto simp: bs)
    qed
  qed
qed

lemma lo_gallop_in_B_inv:
  assumes asym: "asymmetric cmp" and out: "out \<noteq> []"
    and inv: "lo_inv cmp post (pre @ out) as bs" and ne: "as \<noteq> []" "bs \<noteq> []"
  shows "case lo_gallop_in_B cmp out as bs of
           Inl merged \<Rightarrow> merged_ok cmp pre post merged
         | Inr (n, out', as', bs') \<Rightarrow> out' \<noteq> [] \<and> lo_inv cmp post (pre @ out') as' bs'"
proof -
  let ?k = "gallopLeft cmp (hd as) bs 0"
  have "fits cmp (hd as) bs ?k"
    using asym ne by (intro gallopLeft_fits) simp_all
  then obtain xs ys where split: "bs = xs @ ys" "take ?k bs = xs" "drop ?k bs = ys" "length xs = ?k"
    and xs: "xs \<noteq> [] \<longrightarrow> 0 \<le> cmp (hd as) (last xs)" and ys: "ys \<noteq> [] \<longrightarrow> 0 \<le> cmp (hd ys) (hd as)"
    by (rule fits_split)
  obtain a as' where as: "as = a # as'" using ne by (cases as) auto
  have k: "0 < ?k \<longleftrightarrow> xs \<noteq> []" unfolding split(4)[symmetric] by simp
  have inv1: "lo_inv cmp post ((pre @ out) @ xs) as ys"
    using inv ne(1) xs unfolding split(1) by (rule lo_chunk_b)
  show ?thesis
  proof (cases "ys = []")
    case True
    with ne(2) split(1) have "xs \<noteq> []" by simp
    moreover from lo_succeed[OF inv1] True have "noDescent cmp (pre @ ((out @ xs) @ as) @ post)"
      by simp
    ultimately show ?thesis using True out
      unfolding lo_gallop_in_B_def Let_def split(2,3) k by (simp add: merged_ok_def)
  next
    case False
    have inv2: "lo_inv cmp post (((pre @ out) @ xs) @ [a]) as' ys"
      using inv1 False ys unfolding as by (intro lo_take_a) simp_all
    show ?thesis
    proof (cases "length as' = 1")
      case True
      then obtain a' where as': "as' = [a']" by (cases as') auto
      from lo_copyB[OF inv2[unfolded as'] False]
      have "noDescent cmp (pre @ ((out @ xs) @ [a] @ ys @ as') @ post)"
        by (simp add: as')
      with True False out show ?thesis
        unfolding lo_gallop_in_B_def Let_def split(2,3) k by (simp add: merged_ok_def as)
    next
      case l: False
      with inv2 False out show ?thesis
        unfolding lo_gallop_in_B_def Let_def split(2,3) k by (simp add: as)
    qed
  qed
qed

lemma lo_gallop_step_inv:
  assumes asym: "asymmetric cmp" and out: "out \<noteq> []"
    and inv: "lo_inv cmp post (pre @ out) as bs"
  shows "case lo_gallop_step cmp mg out as bs of
           Inl (merged, g) \<Rightarrow> merged_ok cmp pre post merged
         | Inr st \<Rightarrow> lo_inv_st cmp pre post st"
proof (cases "as = [] \<or> bs = []")
  case True
  from lo_succeed[OF inv True] True out show ?thesis
    by (simp add: lo_gallop_step_def merged_ok_def Let_def)
next
  case False
  then have ne: "as \<noteq> []" "bs \<noteq> []" by simp_all
  note A = lo_gallop_in_A_inv[OF asym out inv ne]
  show ?thesis
  proof (cases "lo_gallop_in_A cmp out as bs")
    case (Inl merged)
    with A False show ?thesis by (simp add: lo_gallop_step_def Let_def)
  next
    case (Inr r)
    then obtain nA out1 as1 bs1 where r: "lo_gallop_in_A cmp out as bs = Inr (nA, out1, as1, bs1)"
      by (cases r) auto
    with A have 1: "out1 \<noteq> []" "lo_inv cmp post (pre @ out1) as1 bs1" "as1 \<noteq> []" "bs1 \<noteq> []"
      by simp_all
    note B = lo_gallop_in_B_inv[OF asym 1]
    show ?thesis
    proof (cases "lo_gallop_in_B cmp out1 as1 bs1")
      case (Inl merged)
      with B False r show ?thesis by (simp add: lo_gallop_step_def Let_def)
    next
      case (Inr r')
      then obtain nB out2 as2 bs2 where r': "lo_gallop_in_B cmp out1 as1 bs1 = Inr (nB, out2, as2, bs2)"
        by (cases r') auto
      with B False r show ?thesis by (simp add: lo_gallop_step_def Let_def)
    qed
  qed
qed

lemma lo_step_inv:
  assumes "asymmetric cmp" "lo_inv_st cmp pre post st"
  shows "case lo_step cmp st of
           Inl (merged, g) \<Rightarrow> merged_ok cmp pre post merged
         | Inr st' \<Rightarrow> lo_inv_st cmp pre post st'"
proof (cases "(cmp, st)" rule: lo_step.cases)
  case (1 cmp' nA nB mg out as bs)
  with assms lo_straight_step_inv[of cmp out post pre as bs mg nA nB] show ?thesis by simp
next
  case (2 cmp' mg out as bs)
  with assms lo_gallop_step_inv[of cmp out post pre as bs mg] show ?thesis by simp
qed

lemma lo_loop_merged:
  "asymmetric cmp \<Longrightarrow> lo_inv_st cmp pre post st \<Longrightarrow> merged_ok cmp pre post (fst (lo_loop cmp st))"
proof (induction cmp st rule: lo_loop.induct)
  case (1 cmp st)
  note step = lo_step_inv[OF "1.prems"]
  show ?case
  proof (cases "lo_step cmp st")
    case (Inl result)
    with step show ?thesis
      by (subst lo_loop.simps) (auto split: prod.splits)
  next
    case (Inr st')
    with step have "lo_inv_st cmp pre post st'" by simp
    from "1.IH"[OF Inr "1.prems"(1) this] Inr show ?thesis
      by (subst lo_loop.simps) simp
  qed
qed

lemma mergeLow_merged:
  assumes asym: "asymmetric cmp" and inv: "lo_inv cmp post pre as bs"
    and ne: "as \<noteq> []" "bs \<noteq> []" and first: "0 \<le> cmp (hd as) (hd bs)"
  shows "merged_ok cmp pre post (fst (mergeLow cmp mg as bs))"
proof -
  obtain b bs' where bs: "bs = b # bs'" using ne by (cases bs) auto
  have inv': "lo_inv cmp post (pre @ [b]) as bs'"
    using inv first unfolding bs by (intro lo_take_b) simp_all
  show ?thesis
  proof (cases "bs' = []")
    case True
    from lo_succeed[OF inv'] True show ?thesis
      by (simp add: mergeLow_def merged_ok_def bs)
  next
    case False
    show ?thesis
    proof (cases "length as = 1")
      case True
      then obtain a where a: "as = [a]" by (cases as) auto
      from lo_copyB[OF inv'[unfolded a] False] False show ?thesis
        by (simp add: mergeLow_def merged_ok_def bs a)
    next
      case l: False
      have "lo_inv_st cmp pre post (Straight 0 0, mg, [b], as, bs')"
        using inv' by simp
      from lo_loop_merged[OF asym this] False l show ?thesis
        by (simp add: mergeLow_def bs)
    qed
  qed
qed

lemma hi_take_a:
  assumes "hi_inv cmp pre acc (as @ [a]) bs" "bs = [] \<or> 0 \<le> cmp a (last bs)"
  shows "hi_inv cmp pre (a # acc) as bs"
  using assms unfolding hi_inv_def
  by (auto simp: noDescent_simps split: if_splits)

lemma hi_take_b:
  assumes "hi_inv cmp pre acc as (bs @ [b])" "as \<noteq> []" "0 \<le> cmp b (last as)"
  shows "hi_inv cmp pre (b # acc) as bs"
  using assms unfolding hi_inv_def
  by (auto simp: noDescent_simps split: if_splits)

lemma hi_chunk_a:
  assumes "hi_inv cmp pre acc (xs @ ys) bs" "bs \<noteq> []" "ys \<noteq> [] \<longrightarrow> 0 \<le> cmp (hd ys) (last bs)"
  shows "hi_inv cmp pre (ys @ acc) xs bs"
  using assms unfolding hi_inv_def
  by (auto simp: noDescent_simps split: if_splits)

lemma hi_chunk_b:
  assumes "hi_inv cmp pre acc as (xs @ ys)" "as \<noteq> []" "ys \<noteq> [] \<longrightarrow> 0 \<le> cmp (hd ys) (last as)"
  shows "hi_inv cmp pre (ys @ acc) as xs"
  using assms unfolding hi_inv_def
  by (auto simp: noDescent_simps split: if_splits)

lemma hi_succeed:
  assumes "hi_inv cmp pre acc as bs" "as = [] \<or> bs = []"
  shows "noDescent cmp (pre @ as @ bs @ acc)"
  using assms unfolding hi_inv_def
  by (auto simp: noDescent_simps split: if_splits)

lemma hi_copyA:
  assumes "hi_inv cmp pre acc as [b]" "as \<noteq> []"
  shows "noDescent cmp (pre @ [b] @ as @ acc)"
  using assms unfolding hi_inv_def
  by (auto simp: noDescent_simps split: if_splits)

lemma hi_straight_step_inv:
  assumes asym: "asymmetric cmp" and out: "out \<noteq> []"
    and inv: "hi_inv cmp pre (out @ post) as bs"
  shows "case hi_straight_step cmp mg nA nB out as bs of
           Inl (merged, g) \<Rightarrow> merged_ok cmp pre post merged
         | Inr st \<Rightarrow> hi_inv_st cmp pre post st"
proof (cases "as = [] \<or> bs = []")
  case True
  from hi_succeed[OF inv True] True out show ?thesis
    by (simp add: hi_straight_step_def merged_ok_def)
next
  case False
  then obtain a as' b bs' where as: "as = as' @ [a]" and bs: "bs = bs' @ [b]"
    by (cases as rule: rev_cases; cases bs rule: rev_cases) auto
  show ?thesis
  proof (cases "cmp b a < 0")
    case True
    with asym have "0 \<le> cmp a b" by (simp add: asymmetric_def)
    with inv have inv': "hi_inv cmp pre (a # out @ post) as' bs"
      unfolding as by (intro hi_take_a) (simp_all add: bs)
    show ?thesis
    proof (cases "as' = []")
      case e: True
      from hi_succeed[OF inv'] e have "noDescent cmp (pre @ (bs @ [a] @ out) @ post)" by simp
      with True e show ?thesis
        by (simp add: hi_straight_step_def merged_ok_def as bs)
    next
      case e: False
      with True inv' show ?thesis
        by (simp add: hi_straight_step_def as bs)
    qed
  next
    case c: False
    then have "0 \<le> cmp b a" by simp
    with inv have inv': "hi_inv cmp pre (b # out @ post) as bs'"
      unfolding bs by (intro hi_take_b) (simp_all add: as)
    show ?thesis
    proof (cases "length bs' = 1")
      case True
      then obtain b' where bs': "bs' = [b']" by (cases bs') auto
      from hi_copyA[OF inv'[unfolded bs']] have "noDescent cmp (pre @ (bs' @ as @ [b] @ out) @ post)"
        by (simp add: as bs')
      with c True show ?thesis
        by (simp add: hi_straight_step_def merged_ok_def as bs)
    next
      case False
      with c inv' show ?thesis
        by (simp add: hi_straight_step_def as bs)
    qed
  qed
qed

lemma hi_gallop_in_A_inv:
  assumes asym: "asymmetric cmp" and out: "out \<noteq> []"
    and inv: "hi_inv cmp pre (out @ post) as bs" and ne: "as \<noteq> []" "bs \<noteq> []"
  shows "case hi_gallop_in_A cmp out as bs of
           Inl merged \<Rightarrow> merged_ok cmp pre post merged
         | Inr (n, out', as', bs') \<Rightarrow>
             out' \<noteq> [] \<and> hi_inv cmp pre (out' @ post) as' bs' \<and> as' \<noteq> [] \<and> bs' \<noteq> []"
proof -
  let ?k = "gallopRight cmp (last bs) as (length as - 1)"
  have "fits cmp (last bs) as ?k"
    using asym ne by (intro gallopRight_fits) simp_all
  then obtain xs ys where split: "as = xs @ ys" "take ?k as = xs" "drop ?k as = ys" "length xs = ?k"
    and xs: "xs \<noteq> [] \<longrightarrow> 0 \<le> cmp (last bs) (last xs)" and ys: "ys \<noteq> [] \<longrightarrow> 0 \<le> cmp (hd ys) (last bs)"
    by (rule fits_split)
  obtain b bs' where bs: "bs = bs' @ [b]" using ne by (cases bs rule: rev_cases) auto
  have k: "0 < length as - ?k \<longleftrightarrow> ys \<noteq> []"
    unfolding split(4)[symmetric] by (subst split(1)) simp
  have inv1: "hi_inv cmp pre (ys @ out @ post) xs bs"
    using inv ne(2) ys unfolding split(1) by (rule hi_chunk_a)
  show ?thesis
  proof (cases "xs = []")
    case True
    with ne(1) split(1) have "ys \<noteq> []" by simp
    moreover from hi_succeed[OF inv1] True have "noDescent cmp (pre @ (bs @ ys @ out) @ post)"
      by simp
    ultimately show ?thesis using True out
      unfolding hi_gallop_in_A_def Let_def split(2,3) k by (simp add: merged_ok_def)
  next
    case False
    have inv2: "hi_inv cmp pre (b # ys @ out @ post) xs bs'"
      using inv1 False xs unfolding bs by (intro hi_take_b) simp_all
    consider (copyA) "length bs' = 1" | (succeed) "bs' = []" | (further) "bs' \<noteq> []" "length bs' \<noteq> 1"
      by auto
    then show ?thesis
    proof cases
      case copyA
      then obtain b' where b': "bs' = [b']" by (cases bs') auto
      from hi_copyA[OF inv2[unfolded b'] False]
      have "noDescent cmp (pre @ (bs' @ xs @ [b] @ ys @ out) @ post)"
        by (simp add: b')
      with copyA False out show ?thesis
        unfolding hi_gallop_in_A_def Let_def split(2,3) k by (simp add: merged_ok_def bs)
    next
      case succeed
      from hi_succeed[OF inv2] succeed have "noDescent cmp (pre @ (xs @ [b] @ ys @ out) @ post)"
        by simp
      with succeed False out show ?thesis
        unfolding hi_gallop_in_A_def Let_def split(2,3) k by (simp add: merged_ok_def bs)
    next
      case further
      with inv2 False out show ?thesis
        unfolding hi_gallop_in_A_def Let_def split(2,3) k by (simp add: bs)
    qed
  qed
qed

lemma hi_gallop_in_B_inv:
  assumes asym: "asymmetric cmp" and out: "out \<noteq> []"
    and inv: "hi_inv cmp pre (out @ post) as bs" and ne: "as \<noteq> []" "bs \<noteq> []"
  shows "case hi_gallop_in_B cmp out as bs of
           Inl merged \<Rightarrow> merged_ok cmp pre post merged
         | Inr (n, out', as', bs') \<Rightarrow> out' \<noteq> [] \<and> hi_inv cmp pre (out' @ post) as' bs'"
proof -
  let ?k = "gallopLeft cmp (last as) bs (length bs - 1)"
  have "fits cmp (last as) bs ?k"
    using asym ne by (intro gallopLeft_fits) simp_all
  then obtain xs ys where split: "bs = xs @ ys" "take ?k bs = xs" "drop ?k bs = ys" "length xs = ?k"
    and xs: "xs \<noteq> [] \<longrightarrow> 0 \<le> cmp (last as) (last xs)" and ys: "ys \<noteq> [] \<longrightarrow> 0 \<le> cmp (hd ys) (last as)"
    by (rule fits_split)
  obtain a as' where as: "as = as' @ [a]" using ne by (cases as rule: rev_cases) auto
  have k: "0 < length bs - ?k \<longleftrightarrow> ys \<noteq> []"
    unfolding split(4)[symmetric] by (subst split(1)) simp
  have inv1: "hi_inv cmp pre (ys @ out @ post) as xs"
    using inv ne(1) ys unfolding split(1) by (rule hi_chunk_b)
  consider (copyA) "ys \<noteq> []" "length xs = 1" | (succeed) "ys \<noteq> []" "xs = []"
    | (further) "xs \<noteq> []" "\<not> (ys \<noteq> [] \<and> length xs = 1)"
    using ne(2) split(1) by (cases "xs = []") auto
  then show ?thesis
  proof cases
    case copyA
    then obtain b' where b': "xs = [b']" by (cases xs) auto
    from hi_copyA[OF inv1[unfolded b'] ne(1)]
    have "noDescent cmp (pre @ (xs @ as @ ys @ out) @ post)"
      by (simp add: b')
    with copyA out show ?thesis
      unfolding hi_gallop_in_B_def Let_def split(2,3) k by (simp add: merged_ok_def)
  next
    case succeed
    from hi_succeed[OF inv1] succeed have "noDescent cmp (pre @ (as @ ys @ out) @ post)"
      by simp
    with succeed out show ?thesis
      unfolding hi_gallop_in_B_def Let_def split(2,3) k by (simp add: merged_ok_def)
  next
    case further
    have inv2: "hi_inv cmp pre (a # ys @ out @ post) as' xs"
      using inv1 xs further(1) unfolding as by (intro hi_take_a) simp_all
    show ?thesis
    proof (cases "as' = []")
      case True
      from hi_succeed[OF inv2] True have "noDescent cmp (pre @ (xs @ [a] @ ys @ out) @ post)"
        by simp
      with True further out show ?thesis
        unfolding hi_gallop_in_B_def Let_def split(2,3) k by (auto simp: merged_ok_def as)
    next
      case False
      with inv2 further out show ?thesis
        unfolding hi_gallop_in_B_def Let_def split(2,3) k by (auto simp: as)
    qed
  qed
qed

lemma hi_gallop_step_inv:
  assumes asym: "asymmetric cmp" and out: "out \<noteq> []"
    and inv: "hi_inv cmp pre (out @ post) as bs"
  shows "case hi_gallop_step cmp mg out as bs of
           Inl (merged, g) \<Rightarrow> merged_ok cmp pre post merged
         | Inr st \<Rightarrow> hi_inv_st cmp pre post st"
proof (cases "as = [] \<or> bs = []")
  case True
  from hi_succeed[OF inv True] True out show ?thesis
    by (simp add: hi_gallop_step_def merged_ok_def Let_def)
next
  case False
  then have ne: "as \<noteq> []" "bs \<noteq> []" by simp_all
  note A = hi_gallop_in_A_inv[OF asym out inv ne]
  show ?thesis
  proof (cases "hi_gallop_in_A cmp out as bs")
    case (Inl merged)
    with A False show ?thesis by (simp add: hi_gallop_step_def Let_def)
  next
    case (Inr r)
    then obtain nA out1 as1 bs1 where r: "hi_gallop_in_A cmp out as bs = Inr (nA, out1, as1, bs1)"
      by (cases r) auto
    with A have 1: "out1 \<noteq> []" "hi_inv cmp pre (out1 @ post) as1 bs1" "as1 \<noteq> []" "bs1 \<noteq> []"
      by simp_all
    note B = hi_gallop_in_B_inv[OF asym 1]
    show ?thesis
    proof (cases "hi_gallop_in_B cmp out1 as1 bs1")
      case (Inl merged)
      with B False r show ?thesis by (simp add: hi_gallop_step_def Let_def)
    next
      case (Inr r')
      then obtain nB out2 as2 bs2 where r': "hi_gallop_in_B cmp out1 as1 bs1 = Inr (nB, out2, as2, bs2)"
        by (cases r') auto
      with B False r show ?thesis by (simp add: hi_gallop_step_def Let_def)
    qed
  qed
qed

lemma hi_step_inv:
  assumes "asymmetric cmp" "hi_inv_st cmp pre post st"
  shows "case hi_step cmp st of
           Inl (merged, g) \<Rightarrow> merged_ok cmp pre post merged
         | Inr st' \<Rightarrow> hi_inv_st cmp pre post st'"
proof (cases "(cmp, st)" rule: hi_step.cases)
  case (1 cmp' nA nB mg out as bs)
  with assms hi_straight_step_inv[of cmp out pre post as bs mg nA nB] show ?thesis by simp
next
  case (2 cmp' mg out as bs)
  with assms hi_gallop_step_inv[of cmp out pre post as bs mg] show ?thesis by simp
qed

lemma hi_loop_merged:
  "asymmetric cmp \<Longrightarrow> hi_inv_st cmp pre post st \<Longrightarrow> merged_ok cmp pre post (fst (hi_loop cmp st))"
proof (induction cmp st rule: hi_loop.induct)
  case (1 cmp st)
  note step = hi_step_inv[OF "1.prems"]
  show ?case
  proof (cases "hi_step cmp st")
    case (Inl result)
    with step show ?thesis
      by (subst hi_loop.simps) (auto split: prod.splits)
  next
    case (Inr st')
    with step have "hi_inv_st cmp pre post st'" by simp
    from "1.IH"[OF Inr "1.prems"(1) this] Inr show ?thesis
      by (subst hi_loop.simps) simp
  qed
qed

lemma mergeHigh_merged:
  assumes asym: "asymmetric cmp" and inv: "hi_inv cmp pre post as bs"
    and ne: "as \<noteq> []" "bs \<noteq> []" and lst: "0 \<le> cmp (last as) (last bs)"
  shows "merged_ok cmp pre post (fst (mergeHigh cmp mg as bs))"
proof -
  obtain a as' where as: "as = as' @ [a]" using ne by (cases as rule: rev_cases) auto
  have inv': "hi_inv cmp pre (a # post) as' bs"
    using inv lst unfolding as by (intro hi_take_a) simp_all
  show ?thesis
  proof (cases "as' = []")
    case True
    from hi_succeed[OF inv'] True show ?thesis
      by (simp add: mergeHigh_def merged_ok_def as)
  next
    case False
    show ?thesis
    proof (cases "length bs = 1")
      case True
      then obtain b where b: "bs = [b]" by (cases bs) auto
      from hi_copyA[OF inv'[unfolded b] False] False show ?thesis
        by (simp add: mergeHigh_def merged_ok_def as b)
    next
      case l: False
      have "hi_inv_st cmp pre post (Straight 0 0, mg, [a], as', bs)"
        using inv' by simp
      from hi_loop_merged[OF asym this] False l show ?thesis
        by (simp add: mergeHigh_def as)
    qed
  qed
qed

lemma merge_runs_merged:
  assumes asym: "asymmetric cmp"
    and A: "runA \<noteq> []" "noDescent cmp runA" and B: "runB \<noteq> []" "noDescent cmp runB"
  shows "fst (merge_runs cmp mg runA runB) \<noteq> [] \<and> noDescent cmp (fst (merge_runs cmp mg runA runB))"
proof -
  let ?k = "gallopRight cmp (hd runB) runA 0"
  have "fits cmp (hd runB) runA ?k"
    using asym A(1) by (intro gallopRight_fits) simp_all
  then obtain pre as where splitA: "runA = pre @ as" "take ?k runA = pre" "drop ?k runA = as"
    and pre: "pre \<noteq> [] \<longrightarrow> 0 \<le> cmp (hd runB) (last pre)" and as: "as \<noteq> [] \<longrightarrow> 0 \<le> cmp (hd as) (hd runB)"
    by (rule fits_split)
  show ?thesis
  proof (cases "as = []")
    case True
    with A B splitA(1) pre have "noDescent cmp (runA @ runB)"
      by (auto simp: noDescent_simps)
    with True A(1) show ?thesis
      unfolding merge_runs_def Let_def splitA(3) by simp
  next
    case False
    let ?l = "gallopLeft cmp (last as) runB (length runB - 1)"
    have "fits cmp (last as) runB ?l"
      using asym B(1) by (intro gallopLeft_fits) simp_all
    then obtain bs post where splitB: "runB = bs @ post" "take ?l runB = bs" "drop ?l runB = post"
      and bs: "bs \<noteq> [] \<longrightarrow> 0 \<le> cmp (last as) (last bs)" and post: "post \<noteq> [] \<longrightarrow> 0 \<le> cmp (hd post) (last as)"
      by (rule fits_split)
    show ?thesis
    proof (cases "bs = []")
      case True
      with A B splitA(1) splitB(1) False post have "noDescent cmp (runA @ runB)"
        by (auto simp: noDescent_simps)
      with True False A(1) show ?thesis
        unfolding merge_runs_def Let_def splitA(3) splitB(2) by simp
    next
      case ne: False
      have hdB: "hd runB = hd bs" using ne splitB(1) by simp
      have first: "0 \<le> cmp (hd as) (hd bs)" using as False hdB by simp
      have lst: "0 \<le> cmp (last as) (last bs)" using bs ne by simp
      have lo: "lo_inv cmp post pre as bs"
        using A(2) B(2) pre post lst False ne unfolding splitA(1) splitB(1) lo_inv_def hdB
        by (auto simp: noDescent_simps)
      have hi: "hi_inv cmp pre post as bs"
        using A(2) B(2) pre post first False ne unfolding splitA(1) splitB(1) hi_inv_def hdB
        by (auto simp: noDescent_simps)
      let ?m = "if length as \<le> length bs then mergeLow cmp mg as bs else mergeHigh cmp mg as bs"
      have "merged_ok cmp pre post (fst ?m)"
        using mergeLow_merged[OF asym lo False ne first] mergeHigh_merged[OF asym hi False ne lst]
        by simp
      moreover have "fst (merge_runs cmp mg runA runB) = pre @ fst ?m @ post"
        using False ne unfolding merge_runs_def Let_def splitA(2,3) splitB(2,3)
        by (simp add: case_prod_unfold)
      ultimately show ?thesis by (simp add: merged_ok_def)
    qed
  qed
qed

lemma mergeAt_runs_ok:
  assumes "asymmetric cmp" "runs_ok cmp pendingRuns" "i + 2 \<le> length pendingRuns"
  shows "runs_ok cmp (fst (mergeAt cmp i pendingRuns mg))"
proof -
  have "pendingRuns ! i \<in> set pendingRuns" "pendingRuns ! (i + 1) \<in> set pendingRuns"
    using assms(3) by simp_all
  with assms(2) have "pendingRuns ! i \<noteq> []" "noDescent cmp (pendingRuns ! i)"
    "pendingRuns ! (i + 1) \<noteq> []" "noDescent cmp (pendingRuns ! (i + 1))"
    unfolding runs_ok_def by blast+
  from merge_runs_merged[OF assms(1) this, of mg]
  show ?thesis
    using assms(2) unfolding runs_ok_def mergeAt_def
    by (auto simp: case_prod_unfold dest: in_set_takeD in_set_dropD)
qed

lemma mergeCollapse_runs_ok:
  "asymmetric cmp \<Longrightarrow> runs_ok cmp pendingRuns \<Longrightarrow> runs_ok cmp (fst (mergeCollapse cmp pendingRuns mg))"
proof (induction cmp pendingRuns mg rule: mergeCollapse.induct)
  case (1 cmp pendingRuns minGallop)
  show ?case
  proof (cases "1 < length pendingRuns")
    case False
    with "1.prems" show ?thesis by (subst mergeCollapse.simps) simp
  next
    case True
    let ?n = "length pendingRuns - 2"
    let ?n' = "if length (pendingRuns ! (?n - 1)) < length (pendingRuns ! (?n + 1)) then ?n - 1 else ?n"
    have ok: "runs_ok cmp (fst (mergeAt cmp i pendingRuns minGallop))" if "i + 2 \<le> length pendingRuns" for i
      using "1.prems" that by (rule mergeAt_runs_ok)
    have n: "?n + 2 \<le> length pendingRuns" "?n' + 2 \<le> length pendingRuns" using True by auto
    consider (a) "\<not> runInvariantEstablished pendingRuns (?n + 1) \<or> \<not> runInvariantEstablished pendingRuns ?n"
      | (b) "\<not> (\<not> runInvariantEstablished pendingRuns (?n + 1) \<or> \<not> runInvariantEstablished pendingRuns ?n)"
            "length (pendingRuns ! ?n) \<le> length (pendingRuns ! (?n + 1))"
      | (c) "\<not> (\<not> runInvariantEstablished pendingRuns (?n + 1) \<or> \<not> runInvariantEstablished pendingRuns ?n)"
            "\<not> length (pendingRuns ! ?n) \<le> length (pendingRuns ! (?n + 1))"
      by blast
    then show ?thesis
    proof cases
      case a
      from "1.IH"(1)[OF True refl a refl "1.prems"(1) ok[OF n(2)]] True a show ?thesis
        by (subst mergeCollapse.simps) (simp add: Let_def)
    next
      case b
      from "1.IH"(2)[OF True refl b "1.prems"(1) ok[OF n(1)]] True b show ?thesis
        by (subst mergeCollapse.simps) (simp add: Let_def)
    next
      case c
      with "1.prems" True show ?thesis
        by (subst mergeCollapse.simps) (simp add: Let_def)
    qed
  qed
qed

lemma mergeForceCollapse_runs_ok:
  "asymmetric cmp \<Longrightarrow> runs_ok cmp pendingRuns \<Longrightarrow>
     runs_ok cmp (fst (mergeForceCollapse cmp pendingRuns mg))
     \<and> length (fst (mergeForceCollapse cmp pendingRuns mg)) \<le> 1"
proof (induction cmp pendingRuns mg rule: mergeForceCollapse.induct)
  case (1 cmp pendingRuns minGallop)
  show ?case
  proof (cases "1 < length pendingRuns")
    case False
    with "1.prems" show ?thesis by (subst (1 2) mergeForceCollapse.simps) simp
  next
    case True
    let ?n = "length pendingRuns - 2"
    let ?n' = "if 0 < ?n \<and> length (pendingRuns ! (?n - 1)) < length (pendingRuns ! (?n + 1)) then ?n - 1 else ?n"
    have n: "?n' + 2 \<le> length pendingRuns" using True by auto
    have ok: "runs_ok cmp (fst (mergeAt cmp ?n' pendingRuns minGallop))"
      using "1.prems" n by (rule mergeAt_runs_ok)
    from "1.IH"[OF True refl refl "1.prems"(1) ok] True show ?thesis
      by (subst (1 2) mergeForceCollapse.simps) (simp add: Let_def)
  qed
qed

lemma next_run_ok:
  assumes asym: "asymmetric cmp" and ne: "remaining \<noteq> []"
  shows "fst (next_run cmp minRunLength remaining) \<noteq> []
       \<and> noDescent cmp (fst (next_run cmp minRunLength remaining))"
proof -
  obtain n a where run: "countAndMakeRun cmp remaining = (n, a)"
    by (cases "countAndMakeRun cmp remaining")
  have spec: "length a = length remaining \<and> n \<le> length remaining \<and> 0 < n \<and> noDescent cmp (take n a)"
  proof (cases "2 \<le> length remaining")
    case True
    with countAndMakeRun_run[OF asym run] show ?thesis by simp
  next
    case False
    with ne obtain x where "remaining = [x]"
      by (cases remaining; cases "tl remaining") auto
    with run show ?thesis by (auto simp: noDescent_def)
  qed
  show ?thesis
  proof (cases "n < minRunLength")
    case True
    let ?forced = "min minRunLength (length remaining)"
    let ?seg = "take ?forced a"
    have "n \<le> length ?seg" using spec True by simp
    moreover have "noDescent cmp (take n ?seg)" using spec True by (simp add: min_def)
    ultimately have "noDescent cmp (binaryInsertionSort cmp ?seg n)"
      using asym by (intro binaryInsertionSort_sorted)
    moreover have "length (binaryInsertionSort cmp ?seg n) = ?forced"
      using spec by (simp add: length_binaryInsertionSort)
    then have "binaryInsertionSort cmp ?seg n \<noteq> []"
      using spec True by auto
    ultimately show ?thesis using run True by (simp add: next_run_def Let_def)
  next
    case False
    with run spec show ?thesis by (auto simp: next_run_def)
  qed
qed

lemma timsort_loop_noDescent:
  "asymmetric cmp \<Longrightarrow> runs_ok cmp pendingRuns \<Longrightarrow>
     noDescent cmp (timsort_loop cmp minRunLength pendingRuns mg remaining)"
proof (induction cmp minRunLength pendingRuns mg remaining rule: timsort_loop.induct)
  case (1 cmp minRunLength pendingRuns minGallop remaining)
  show ?case
  proof (cases "remaining \<noteq> []")
    case True
    let ?run = "fst (next_run cmp minRunLength remaining)"
    let ?merged = "mergeCollapse cmp (pendingRuns @ [?run]) minGallop"
    have "runs_ok cmp (pendingRuns @ [?run])"
      using "1.prems"(2) next_run_ok[OF "1.prems"(1) True, of minRunLength]
      by (auto simp: runs_ok_def)
    with "1.prems"(1) have "runs_ok cmp (fst ?merged)" by (rule mergeCollapse_runs_ok)
    from "1.IH"[OF True refl refl "1.prems"(1) this] True show ?thesis
      by (subst timsort_loop.simps) (simp add: Let_def)
  next
    case False
    let ?runs = "fst (mergeForceCollapse cmp pendingRuns minGallop)"
    from mergeForceCollapse_runs_ok[OF "1.prems", of minGallop]
    have ok: "runs_ok cmp ?runs" and len: "length ?runs \<le> 1" by simp_all
    have "noDescent cmp (concat ?runs)"
    proof (cases ?runs)
      case Nil
      then show ?thesis by (simp add: noDescent_def)
    next
      case (Cons run rest)
      with len have "rest = []" by simp
      with Cons ok show ?thesis by (simp add: runs_ok_def)
    qed
    with False show ?thesis by (subst timsort_loop.simps) simp
  qed
qed

lemma array_sort_noDescent:
  assumes "asymmetric cmp"
  shows "noDescent cmp (array_sort cmp a)"
proof (cases "length a < 2")
  case True
  then have "a = [] \<or> (\<exists>x. a = [x])"
    by (cases a; cases "tl a") auto
  then show ?thesis
    using True by (auto simp: array_sort_def noDescent_def)
next
  case False
  have "runs_ok cmp []" by (simp add: runs_ok_def)
  with assms have "noDescent cmp (timsort_loop cmp (computeMinRunLength (length a)) [] kMinGallopWins a)"
    by (rule timsort_loop_noDescent)
  with False show ?thesis by (simp add: array_sort_def)
qed

lemma computeMinRunLength_loop_le: "computeMinRunLength_loop n r \<le> n + r"
proof (induction n r rule: computeMinRunLength_loop.induct)
  case (1 n r)
  show ?case
  proof (cases "64 \<le> n")
    case True
    have "computeMinRunLength_loop (n div 2) (max r (n mod 2)) \<le> n div 2 + max r (n mod 2)"
      using "1.IH"[OF True] .
    also have "\<dots> \<le> n + r" by (simp add: max_def) presburger
    finally show ?thesis using True by (subst computeMinRunLength_loop.simps) simp
  next
    case False
    then show ?thesis by (subst computeMinRunLength_loop.simps) simp
  qed
qed

lemma computeMinRunLength_le: "computeMinRunLength n \<le> n"
  using computeMinRunLength_loop_le[of n 0] by (simp add: computeMinRunLength_def)

lemma array_sort_sorted:
  assumes "noDescent cmp a"
  shows "array_sort cmp a = a"
proof (cases "length a < 2")
  case True
  then show ?thesis by (simp add: array_sort_def)
next
  case False
  let ?m = "computeMinRunLength (length a)"
  have ne: "a \<noteq> []" using False by auto
  have run: "countAndMakeRun cmp a = (length a, a)"
    using assms False by (intro countAndMakeRun_sorted) simp_all
  have nr: "next_run cmp ?m a = (a, [])"
    using run computeMinRunLength_le[of "length a"] by (simp add: next_run_def)
  have mc: "mergeCollapse cmp [a] kMinGallopWins = ([a], kMinGallopWins)"
    by (subst mergeCollapse.simps) simp
  have mf: "mergeForceCollapse cmp [a] kMinGallopWins = ([a], kMinGallopWins)"
    by (subst mergeForceCollapse.simps) simp
  have "timsort_loop cmp ?m [a] kMinGallopWins [] = a"
    by (subst timsort_loop.simps) (simp add: mf)
  then have "timsort_loop cmp ?m [] kMinGallopWins a = a"
    using ne by (subst timsort_loop.simps) (simp add: nr mc Let_def)
  with False show ?thesis by (simp add: array_sort_def)
qed

lemma array_sort_idem:
  "asymmetric cmp \<Longrightarrow> array_sort cmp (array_sort cmp a) = array_sort cmp a"
  by (simp add: array_sort_sorted array_sort_noDescent)

lemma num_less_asym: "num_less a b \<Longrightarrow> \<not> num_less b a"
  by (cases a; cases b) auto

lemma str_less_asym: "str_less s t \<Longrightarrow> \<not> str_less t s"
  by (induction s t rule: str_less.induct) auto

lemma js_less_asym: "js_less x y \<Longrightarrow> \<not> js_less y x"
  by (cases x; cases y) (auto split: option.splits dest: num_less_asym str_less_asym)

lemma compare_tokens_asym: "compare_tokens xs ys < 0 \<Longrightarrow> 0 \<le> compare_tokens ys xs"
  by (induction xs ys rule: compare_tokens.induct)
     (auto split: if_splits dest: num_less_asym js_less_asym)

lemma asymmetric_comparator: "asymmetric comparator"
  by (simp add: asymmetric_def comparator_def compare_tokens_asym)

text \<open>
  An array that the comparator finds without descent is left as it is.
\<close>

lemma array_sort_comparator_sorted:
  "noDescent comparator pdfObjs \<Longrightarrow> array_sort comparator pdfObjs = pdfObjs"
  by (rule array_sort_sorted)

text \<open>
  C5: sorting is idempotent; sorting the sorted array of records again gives the same
  array. The comparator never answers "below" in both directions, so every run, every
  merge and at last the sorted array is without descent, and an array without descent
  is a single run that the sort leaves as it is.
\<close>

theorem array_sort_comparator_idempotent:
  "array_sort comparator (array_sort comparator pdfObjs) = array_sort comparator pdfObjs"
  using asymmetric_comparator by (rule array_sort_idem)


text \<open>
  C9 says that two files whose names differ only in leading zeros keep their
  traversal order in the index. Take the directories \<^verbatim>\<open>d1\<close> with \<^verbatim>\<open>a.pdf\<close> and \<^verbatim>\<open>b.pdf\<close>,
  \<^verbatim>\<open>d2\<close> with \<^verbatim>\<open>5.pdf\<close> and \<^verbatim>\<open>c.pdf\<close>, \<^verbatim>\<open>d3\<close> with \<^verbatim>\<open>1.pdf\<close>, and \<^verbatim>\<open>d4\<close> with \<^verbatim>\<open>0.pdf\<close> and
  \<^verbatim>\<open>01.pdf\<close>, every listing in increasing order. The files \<^verbatim>\<open>1.pdf\<close> and \<^verbatim>\<open>01.pdf\<close> have
  the same tokens, \<^verbatim>\<open>d3/1.pdf\<close> is found first, and the index lists \<^verbatim>\<open>d4/01.pdf\<close> first:
  the first five files pass for a run because a number and a text compare "above" in
  both directions, and the binary search for \<^verbatim>\<open>01.pdf\<close> meets \<^verbatim>\<open>5.pdf\<close> before it could
  meet \<^verbatim>\<open>1.pdf\<close>.
\<close>

theorem leading_zeros_order_not_kept:
  "listing_sorted
     (Directory [(''d1'', Directory [(''a.pdf'', RegularFile), (''b.pdf'', RegularFile)]),
                 (''d2'', Directory [(''5.pdf'', RegularFile), (''c.pdf'', RegularFile)]),
                 (''d3'', Directory [(''1.pdf'', RegularFile)]),
                 (''d4'', Directory [(''0.pdf'', RegularFile), (''01.pdf'', RegularFile)])])
   \<and> walkForPdfs ''/w/docs''
     (Directory [(''d1'', Directory [(''a.pdf'', RegularFile), (''b.pdf'', RegularFile)]),
                 (''d2'', Directory [(''5.pdf'', RegularFile), (''c.pdf'', RegularFile)]),
                 (''d3'', Directory [(''1.pdf'', RegularFile)]),
                 (''d4'', Directory [(''0.pdf'', RegularFile), (''01.pdf'', RegularFile)])])
     = Inr [''/w/docs/d1/a.pdf'', ''/w/docs/d1/b.pdf'', ''/w/docs/d2/5.pdf'',
            ''/w/docs/d2/c.pdf'', ''/w/docs/d3/1.pdf'', ''/w/docs/d4/0.pdf'',
            ''/w/docs/d4/01.pdf'']
   \<and> tokenize ''/w/docs/d3/1.pdf'' = tokenize ''/w/docs/d4/01.pdf''
   \<and> written (main \<lparr>cwd = ''/w'',
         docs = Some
           (Directory [(''d1'', Directory [(''a.pdf'', RegularFile), (''b.pdf'', RegularFile)]),
                 (''d2'', Directory [(''5.pdf'', RegularFile), (''c.pdf'', RegularFile)]),
                 (''d3'', Directory [(''1.pdf'', RegularFile)]),
                 (''d4'', Directory [(''0.pdf'', RegularFile), (''01.pdf'', RegularFile)])]),
         writable = True\<rparr>)
     = [(''docs/index.html'',
         html ''/w'' [''/w/docs/d1/a.pdf'', ''/w/docs/d1/b.pdf'', ''/w/docs/d4/0.pdf'',
                      ''/w/docs/d4/01.pdf'', ''/w/docs/d2/5.pdf'', ''/w/docs/d2/c.pdf'',
                      ''/w/docs/d3/1.pdf''])]"
proof -
  let ?tree = "Directory [(''d1'', Directory [(''a.pdf'', RegularFile), (''b.pdf'', RegularFile)]),
                 (''d2'', Directory [(''5.pdf'', RegularFile), (''c.pdf'', RegularFile)]),
                 (''d3'', Directory [(''1.pdf'', RegularFile)]),
                 (''d4'', Directory [(''0.pdf'', RegularFile), (''01.pdf'', RegularFile)])]"
  let ?found = "[''/w/docs/d1/a.pdf'', ''/w/docs/d1/b.pdf'', ''/w/docs/d2/5.pdf'',
            ''/w/docs/d2/c.pdf'', ''/w/docs/d3/1.pdf'', ''/w/docs/d4/0.pdf'',
            ''/w/docs/d4/01.pdf'']"
  let ?objs = "[\<lparr>name = ''/w/docs/d1/a.pdf'', tokens = [Text ''a.pdf'']\<rparr>,
      \<lparr>name = ''/w/docs/d1/b.pdf'', tokens = [Text ''b.pdf'']\<rparr>,
      \<lparr>name = ''/w/docs/d2/5.pdf'', tokens = [Num (Finite 5), Text ''.pdf'']\<rparr>,
      \<lparr>name = ''/w/docs/d2/c.pdf'', tokens = [Text ''c.pdf'']\<rparr>,
      \<lparr>name = ''/w/docs/d3/1.pdf'', tokens = [Num (Finite 1), Text ''.pdf'']\<rparr>,
      \<lparr>name = ''/w/docs/d4/0.pdf'', tokens = [Num (Finite 0), Text ''.pdf'']\<rparr>,
      \<lparr>name = ''/w/docs/d4/01.pdf'', tokens = [Num (Finite 1), Text ''.pdf'']\<rparr>]"
  have listing: "listing_sorted ?tree"
    by (simp add: code_unit_def)
  have docsDir: "path_join ''/w'' ''docs'' = ''/w/docs''"
    by (simp add: path_eval)
  have walk: "walkForPdfs ''/w/docs'' ?tree = Inr ?found"
    by (simp add: path_eval matches_def endsWith_def)
  have objs: "make_objs ?found = Inr ?objs"
    by (simp add: path_eval token_eval)
  have sorted: "map name (array_sort comparator ?objs)
      = [''/w/docs/d1/a.pdf'', ''/w/docs/d1/b.pdf'', ''/w/docs/d4/0.pdf'',
         ''/w/docs/d4/01.pdf'', ''/w/docs/d2/5.pdf'', ''/w/docs/d2/c.pdf'',
         ''/w/docs/d3/1.pdf'']"
    by code_simp
  have same: "tokenize ''/w/docs/d3/1.pdf'' = tokenize ''/w/docs/d4/01.pdf''"
    by (simp add: path_eval token_eval)
  have "written (main \<lparr>cwd = ''/w'', docs = Some ?tree, writable = True\<rparr>)
     = [(''docs/index.html'',
         html ''/w'' [''/w/docs/d1/a.pdf'', ''/w/docs/d1/b.pdf'', ''/w/docs/d4/0.pdf'',
                      ''/w/docs/d4/01.pdf'', ''/w/docs/d2/5.pdf'', ''/w/docs/d2/c.pdf'',
                      ''/w/docs/d3/1.pdf''])]"
    by (simp only: main_def try_block_def generateHtmlIndex_def Let_def world.select_convs
        option.case sum.case if_True docsDir walk objs sorted written.simps append.simps)
  with listing walk same show ?thesis
    by simp
qed

section \<open>The index\<close>

lemma split_not_empty: "split c s \<noteq> []"
  by (induction s) (auto split: list.splits)

lemma join_split: "join [c] (split c s) = s"
proof (induction s)
  case Nil
  show ?case by simp
next
  case (Cons x xs)
  obtain p ps where "split c xs = p # ps"
    using split_not_empty[of c xs] by (cases "split c xs") auto
  with Cons show ?case by (cases ps) auto
qed

lemma split_without: "c \<notin> set n \<Longrightarrow> split c n = [n]"
  by (induction n) auto

lemma split_at: "split c (a @ c # b) = split c a @ split c b"
proof (induction a)
  case Nil
  show ?case by simp
next
  case (Cons x xs)
  obtain p ps where "split c xs = p # ps"
    using split_not_empty[of c xs] by (cases "split c xs") auto
  with Cons show ?case by simp
qed

lemma split_pieces: "q \<in> set (split c s) \<Longrightarrow> c \<notin> set q"
proof (induction s arbitrary: q)
  case Nil
  then show ?case by simp
next
  case (Cons x xs)
  obtain p ps where sp: "split c xs = p # ps"
    using split_not_empty[of c xs] by (cases "split c xs") auto
  with Cons show ?case
    by (cases "x = c") auto
qed

lemma parts_pieces: "q \<in> set (parts p) \<Longrightarrow> q \<noteq> [] \<and> path_sep \<notin> set q"
  by (auto simp: parts_def dest: split_pieces)

lemma parts_at: "parts (a @ path_sep # b) = parts a @ parts b"
  by (simp add: parts_def split_at)

lemma parts_sep: "parts (path_sep # b) = parts b"
  by (simp add: parts_def)

lemma parts_join:
  "\<forall>q \<in> set X. q \<noteq> [] \<and> path_sep \<notin> set q \<Longrightarrow> parts (join [path_sep] X) = X"
proof (induction X)
  case Nil
  show ?case by (simp add: parts_def)
next
  case (Cons p ps)
  then have p: "parts p = [p]"
    by (simp add: parts_def split_without)
  show ?case
  proof (cases ps)
    case Nil
    with p show ?thesis by simp
  next
    case (Cons q qs)
    with Cons.IH Cons.prems p show ?thesis
      by (simp add: parts_at)
  qed
qed

lemma parts_from_parts:
  "\<forall>q \<in> set X. q \<noteq> [] \<and> path_sep \<notin> set q \<Longrightarrow> parts (from_parts X) = X"
  by (simp add: from_parts_def parts_sep parts_join)

lemma normalize_parts_plain:
  "\<forall>q \<in> set X. q \<noteq> ''.'' \<and> q \<noteq> ''..'' \<Longrightarrow> normalize_parts acc X = rev acc @ X"
  by (induction X arbitrary: acc) auto

lemma normalize_parts_keeps:
  "q \<in> set (normalize_parts acc X) \<Longrightarrow> q \<in> set acc \<or> (q \<in> set X \<and> q \<noteq> ''.'' \<and> q \<noteq> ''..'')"
proof (induction X arbitrary: acc)
  case Nil
  then show ?case by simp
next
  case (Cons p ps)
  then show ?case
    by (cases acc) (auto split: if_splits dest!: Cons.IH)
qed

lemma resolved_normalize_parts: "resolved (normalize_parts [] (parts p))"
  using normalize_parts_keeps[of _ "[]" "parts p"] parts_pieces[of _ p]
  by (auto simp: resolved_def plain_def)

lemma path_join_resolved:
  assumes "resolved X" "plain n"
  shows "path_join (from_parts X) n = from_parts (X @ [n])"
proof -
  have "parts n = [n]"
    using assms by (simp add: parts_def split_without plain_def)
  moreover have "parts (from_parts X) = X"
    using assms by (simp add: parts_from_parts resolved_def plain_def)
  ultimately have "parts (from_parts X @ [path_sep] @ n) = X @ [n]"
    by (simp add: parts_at)
  moreover have "normalize_parts [] (X @ [n]) = X @ [n]"
    using assms by (subst normalize_parts_plain) (auto simp: resolved_def plain_def)
  ultimately show ?thesis
    by (simp add: path_join_def)
qed

lemma strip_common_prefix: "strip_common X (X @ Y) = ([], Y)"
  by (induction X) auto

lemma resolve_parts_from_parts:
  assumes "resolved X"
  shows "resolve_parts wd (from_parts X) = X"
proof -
  have "isAbsolute (from_parts X)"
    by (simp add: isAbsolute_def from_parts_def)
  moreover have "parts (from_parts X) = X"
    using assms by (simp add: parts_from_parts resolved_def plain_def)
  moreover have "normalize_parts [] X = X"
    using assms by (subst normalize_parts_plain) (auto simp: resolved_def plain_def)
  ultimately show ?thesis
    by (simp add: resolve_parts_def)
qed

lemma path_relative_below:
  assumes "resolved X" "resolved Y"
  shows "path_relative wd (from_parts X) (from_parts (X @ Y)) = join [path_sep] Y"
proof -
  have "resolved (X @ Y)"
    using assms by (auto simp: resolved_def)
  then show ?thesis
    using assms by (simp add: path_relative_def resolve_parts_from_parts strip_common_prefix)
qed

lemma foldl_path_join:
  "resolved X \<Longrightarrow> resolved ns \<Longrightarrow> foldl path_join (from_parts X) ns = from_parts (X @ ns)"
proof (induction ns arbitrary: X)
  case Nil
  show ?case by simp
next
  case (Cons n ns)
  then have "plain n" "resolved ns" "resolved (X @ [n])"
    by (auto simp: resolved_def)
  with Cons show ?case
    by (simp add: path_join_resolved)
qed

text \<open>
  The entry reached from the docs directory through the names \<open>ns\<close> has the relative
  path that joins the names with forward slashes.
\<close>

lemma spec_relative_below_docs:
  assumes "resolved ns"
  shows "spec_relative wd (foldl path_join (path_join wd ''docs'') ns) = join ''/'' ns"
proof -
  let ?D = "normalize_parts [] (parts (wd @ [path_sep] @ ''docs''))"
  have D: "resolved ?D"
    by (rule resolved_normalize_parts)
  have docs: "path_join wd ''docs'' = from_parts ?D"
    by (simp add: path_join_def)
  show ?thesis
    using D assms
    by (simp add: spec_relative_def docs foldl_path_join path_relative_below path_sep_def)
qed

text \<open>Replacing the separators by forward slashes changes nothing on POSIX.\<close>

lemma relToDocs_spec: "relToDocs wd p = spec_relative wd p"
  by (simp add: relToDocs_def spec_relative_def path_sep_def join_split[of "CHR ''/''", simplified])

lemma list_item_spec:
  "list_item wd p = '' '' @ anchor_item (encodeURI (spec_relative wd p)) (spec_relative wd p)"
  by (simp add: list_item_def anchor_item_def relToDocs_spec Let_def)

text \<open>A string of characters that \<^verbatim>\<open>encodeURI\<close> keeps is its own encoding.\<close>

lemma encodeURI_kept: "list_all uri_kept s \<Longrightarrow> encodeURI s = s"
  by (induction s) (simp_all add: encodeURI_def encode_unit_def)

text \<open>
  C8: the document holds one list entry for each path, in the order given, each of the
  form \<^verbatim>\<open><li><a href="ENCODED">RELATIVE</a></li>\<close> (after one space), between the
  fixed head and tail; it is what \<open>generateHtmlIndex\<close> writes to \<^verbatim>\<open>docs/index.html\<close>. A docs
  directory that lists \<^verbatim>\<open>02.pdf\<close>, \<^verbatim>\<open>01.pdf\<close>, \<^verbatim>\<open>10.pdf\<close> gives the three entries in the
  order \<^verbatim>\<open>01.pdf\<close>, \<^verbatim>\<open>02.pdf\<close>, \<^verbatim>\<open>10.pdf\<close>, each with its name as reference and as label.
\<close>

theorem generateHtmlIndex_entries:
  "html wd pdfPaths
     = join newline (html_head
         @ [join newline
              (map (\<lambda>p. '' '' @ anchor_item (encodeURI (spec_relative wd p)) (spec_relative wd p))
                 pdfPaths)]
         @ html_tail)
   \<and> generateHtmlIndex w pdfPaths
     = (if writable w then Inr (WriteFile ''docs/index.html'' (html (cwd w) pdfPaths))
        else Inl WriteFailed)
   \<and> main \<lparr>cwd = ''/w'',
            docs = Some (Directory [(''02.pdf'', RegularFile), (''01.pdf'', RegularFile),
                                    (''10.pdf'', RegularFile)]),
            writable = True\<rparr>
     = [Stat ''/w/docs'', Walk ''/w/docs'',
        WriteFile ''docs/index.html''
          (join newline (html_head
             @ [join newline
                  ['' '' @ anchor_item ''01.pdf'' ''01.pdf'',
                   '' '' @ anchor_item ''02.pdf'' ''02.pdf'',
                   '' '' @ anchor_item ''10.pdf'' ''10.pdf'']]
             @ html_tail)),
        ConsoleLog ''index.html has been written with 3 PDF(s).'',
        Exit 0]"
proof (intro conjI)
  show "html wd pdfPaths
     = join newline (html_head
         @ [join newline
              (map (\<lambda>p. '' '' @ anchor_item (encodeURI (spec_relative wd p)) (spec_relative wd p))
                 pdfPaths)]
         @ html_tail)"
    by (simp add: html_def listItems_def list_item_spec [abs_def])
  show "generateHtmlIndex w pdfPaths
     = (if writable w then Inr (WriteFile ''docs/index.html'' (html (cwd w) pdfPaths))
        else Inl WriteFailed)"
    by (simp add: generateHtmlIndex_def)
  let ?tree = "Directory [(''02.pdf'', RegularFile), (''01.pdf'', RegularFile),
                          (''10.pdf'', RegularFile)]"
  let ?objs = "[\<lparr>name = ''/w/docs/02.pdf'', tokens = [Num (Finite 2), Text ''.pdf'']\<rparr>,
       \<lparr>name = ''/w/docs/01.pdf'', tokens = [Num (Finite 1), Text ''.pdf'']\<rparr>,
       \<lparr>name = ''/w/docs/10.pdf'', tokens = [Num (Finite 10), Text ''.pdf'']\<rparr>]"
  have docsDir: "path_join ''/w'' ''docs'' = ''/w/docs''"
    by (simp add: path_eval)
  have walk: "walkForPdfs ''/w/docs'' ?tree
      = Inr [''/w/docs/02.pdf'', ''/w/docs/01.pdf'', ''/w/docs/10.pdf'']"
    by (simp add: path_eval matches_def endsWith_def)
  have objs: "make_objs [''/w/docs/02.pdf'', ''/w/docs/01.pdf'', ''/w/docs/10.pdf''] = Inr ?objs"
    by (simp add: path_eval token_eval)
  have sorted: "map name (array_sort comparator ?objs)
      = [''/w/docs/01.pdf'', ''/w/docs/02.pdf'', ''/w/docs/10.pdf'']"
    by code_simp
  have items: "map (list_item ''/w'') [''/w/docs/01.pdf'', ''/w/docs/02.pdf'', ''/w/docs/10.pdf'']
      = ['' '' @ anchor_item ''01.pdf'' ''01.pdf'', '' '' @ anchor_item ''02.pdf'' ''02.pdf'',
         '' '' @ anchor_item ''10.pdf'' ''10.pdf'']"
    by (simp add: list_item_spec spec_relative_def path_eval uri_eval code_unit_def)
  have count: "show_nat (length [''/w/docs/02.pdf'', ''/w/docs/01.pdf'', ''/w/docs/10.pdf'']) = ''3''"
    by (simp add: show_nat.simps char_of_def bit_Suc_0_iff)
  show "main \<lparr>cwd = ''/w'', docs = Some ?tree, writable = True\<rparr>
     = [Stat ''/w/docs'', Walk ''/w/docs'',
        WriteFile ''docs/index.html''
          (join newline (html_head
             @ [join newline
                  ['' '' @ anchor_item ''01.pdf'' ''01.pdf'',
                   '' '' @ anchor_item ''02.pdf'' ''02.pdf'',
                   '' '' @ anchor_item ''10.pdf'' ''10.pdf'']]
             @ html_tail)),
        ConsoleLog ''index.html has been written with 3 PDF(s).'',
        Exit 0]"
    by (simp only: main_def try_block_def generateHtmlIndex_def html_def listItems_def Let_def
        world.select_convs option.case sum.case if_True docsDir walk objs sorted items count
        append.simps)
qed


section \<open>The program\<close>

text \<open>The count in the summary is the decimal numeral of the number.\<close>

lemma decimal_value_snoc:
  "decimal_value (ds @ [c]) = 10 * decimal_value ds + (code_unit c - 48)"
  by (simp add: decimal_value_def)

lemma decimal_value_show_nat: "decimal_value (show_nat n) = n"
proof (induction n rule: show_nat.induct)
  case (1 n)
  show ?case
  proof (cases "n < 10")
    case True
    then show ?thesis
      by (subst show_nat.simps) (simp add: decimal_value_def code_unit_def)
  next
    case False
    have "code_unit (char_of (48 + n mod 10)) = 48 + n mod 10"
      by (simp add: code_unit_def)
    with False "1.IH" show ?thesis
      by (subst show_nat.simps) (simp add: decimal_value_snoc)
  qed
qed

text \<open>
  C6: when \<^verbatim>\<open>docs\<close> does not exist under the working directory, the program prints the
  error message on standard error, ends with status 1, walks nothing and writes no
  file.
\<close>

theorem main_docs_missing:
  "docs w = None \<Longrightarrow>
     stderr (main w) = [(''Error: docs directory not found in current working directory.'', None)]
     \<and> stdout (main w) = []
     \<and> exit_status (main w) = Some 1
     \<and> walked (main w) = []
     \<and> written (main w) = []"
  by (simp add: main_def)

theorem main_docs_missing_witness:
  "stderr (main \<lparr>cwd = ''/w'', docs = None, writable = True\<rparr>)
     = [(''Error: docs directory not found in current working directory.'', None)]
   \<and> stdout (main \<lparr>cwd = ''/w'', docs = None, writable = True\<rparr>) = []
   \<and> exit_status (main \<lparr>cwd = ''/w'', docs = None, writable = True\<rparr>) = Some 1
   \<and> walked (main \<lparr>cwd = ''/w'', docs = None, writable = True\<rparr>) = []
   \<and> written (main \<lparr>cwd = ''/w'', docs = None, writable = True\<rparr>) = []"
proof -
  have "docs \<lparr>cwd = ''/w'', docs = None, writable = True\<rparr> = None"
    by simp
  then show ?thesis
    by (rule main_docs_missing)
qed

text \<open>
  C7: an error of the walk, of making the records or of writing the file is printed on
  standard error by the \<^verbatim>\<open>catch\<close> block and the program ends with status 1; when
  \<^verbatim>\<open>docs\<close> exists and no error occurs, the program prints the summary with the number of
  files found on standard output and ends with status 0.
\<close>

theorem main_outcomes:
  assumes "docs w = Some root"
  shows "case walkForPdfs (path_join (cwd w) ''docs'') root of
           Inl err \<Rightarrow> reports (main w) err
         | Inr pdfs \<Rightarrow>
             (case make_objs pdfs of
                Inl err \<Rightarrow> reports (main w) err
              | Inr pdfObjs \<Rightarrow>
                  if writable w
                  then stdout (main w)
                         = [''index.html has been written with '' @ show_nat (length pdfs)
                            @ '' PDF(s).'']
                       \<and> stderr (main w) = []
                       \<and> exit_status (main w) = Some 0
                  else reports (main w) WriteFailed)"
  using assms
  by (simp add: main_def try_block_def generateHtmlIndex_def reports_def Let_def
      split: sum.splits)

theorem main_outcomes_witness:
  "reports (main \<lparr>cwd = ''/w'',
                  docs = Some (Directory [(''a.pdf'', RegularFile), (''sub'', Unreadable)]),
                  writable = True\<rparr>)
           (EACCES ''/w/docs/sub'')
   \<and> reports (main \<lparr>cwd = ''/w'', docs = Some (Directory [(''a.pdf'', RegularFile)]),
                    writable = False\<rparr>)
             WriteFailed
   \<and> stdout (main \<lparr>cwd = ''/w'', docs = Some (Directory [(''a.pdf'', RegularFile)]),
                   writable = True\<rparr>)
       = [''index.html has been written with 1 PDF(s).'']
   \<and> exit_status (main \<lparr>cwd = ''/w'', docs = Some (Directory [(''a.pdf'', RegularFile)]),
                        writable = True\<rparr>)
       = Some 0"
proof -
  let ?broken = "Directory [(''a.pdf'', RegularFile), (''sub'', Unreadable)]"
  let ?one = "Directory [(''a.pdf'', RegularFile)]"
  have docsDir: "path_join ''/w'' ''docs'' = ''/w/docs''"
    by (simp add: path_eval)
  have walk_broken: "walkForPdfs ''/w/docs'' ?broken = Inl (EACCES ''/w/docs/sub'')"
    by (simp add: path_eval matches_def endsWith_def)
  have walk_one: "walkForPdfs ''/w/docs'' ?one = Inr [''/w/docs/a.pdf'']"
    by (simp add: path_eval matches_def endsWith_def)
  have objs: "make_objs [''/w/docs/a.pdf'']
      = Inr [\<lparr>name = ''/w/docs/a.pdf'', tokens = [Text ''a.pdf'']\<rparr>]"
    by (simp add: path_eval token_eval)
  have count: "show_nat (length [''/w/docs/a.pdf'']) = ''1''"
    by (simp add: show_nat.simps char_of_def bit_Suc_0_iff)
  have "docs \<lparr>cwd = ''/w'', docs = Some ?broken, writable = True\<rparr> = Some ?broken"
    by simp
  from main_outcomes [OF this]
  have first: "reports (main \<lparr>cwd = ''/w'', docs = Some ?broken, writable = True\<rparr>)
                 (EACCES ''/w/docs/sub'')"
    by (simp only: world.select_convs docsDir walk_broken sum.case)
  have "docs \<lparr>cwd = ''/w'', docs = Some ?one, writable = False\<rparr> = Some ?one"
    by simp
  from main_outcomes [OF this]
  have second: "reports (main \<lparr>cwd = ''/w'', docs = Some ?one, writable = False\<rparr>) WriteFailed"
    by (simp only: world.select_convs docsDir walk_one objs sum.case if_False)
  have "docs \<lparr>cwd = ''/w'', docs = Some ?one, writable = True\<rparr> = Some ?one"
    by simp
  from main_outcomes [OF this]
  have third: "stdout (main \<lparr>cwd = ''/w'', docs = Some ?one, writable = True\<rparr>)
                 = [''index.html has been written with 1 PDF(s).'']
               \<and> exit_status (main \<lparr>cwd = ''/w'', docs = Some ?one, writable = True\<rparr>) = Some 0"
    by (simp only: world.select_convs docsDir walk_one objs sum.case if_True count) simp
  from first second third show ?thesis
    by blast
qed

text \<open>
  C10, as the specification states it: when an entry named \<^verbatim>\<open>docs\<close> exists and is not a
  directory, the existence check passes and the message of the missing directory is
  not printed. A dangling symbolic link named \<^verbatim>\<open>docs\<close> refutes it: the entry exists and is
  not a directory, \<^verbatim>\<open>stat\<close> fails on it, and the program prints that message and walks
  nothing.
\<close>

theorem main_dangling_link_counterexample:
  "entry_exists (SymbolicLink None)
   \<and> \<not> entry_isDirectory (SymbolicLink None)
   \<and> stderr (main (world_with ''/w'' (SymbolicLink None) True))
       = [(''Error: docs directory not found in current working directory.'', None)]
   \<and> walked (main (world_with ''/w'' (SymbolicLink None) True)) = []
   \<and> exit_status (main (world_with ''/w'' (SymbolicLink None) True)) = Some 1"
  by (simp add: world_with_def main_def)

text \<open>
  C10, amended: when \<^verbatim>\<open>stat\<close> succeeds on \<^verbatim>\<open>docs\<close> and what it finds, symbolic links
  followed, is not a directory (a regular file, for example), the existence check
  passes and the message of the missing directory is not printed; the walk is started
  and fails on reading the listing, the \<^verbatim>\<open>catch\<close> block prints that error, and the
  program ends with status 1.
\<close>

theorem main_docs_not_directory:
  "docs w = Some node \<Longrightarrow> \<not> isDirectory node \<Longrightarrow>
     walked (main w) = [path_join (cwd w) ''docs'']
     \<and> walkForPdfs (path_join (cwd w) ''docs'') node = Inl (ENOTDIR (path_join (cwd w) ''docs''))
     \<and> stderr (main w) = [(''Failed:'', Some (ENOTDIR (path_join (cwd w) ''docs'')))]
     \<and> stdout (main w) = []
     \<and> written (main w) = []
     \<and> exit_status (main w) = Some 1"
  by (cases node) (simp_all add: main_def try_block_def Let_def)

theorem main_docs_not_directory_witness:
  "walked (main \<lparr>cwd = ''/w'', docs = Some RegularFile, writable = True\<rparr>) = [''/w/docs'']
   \<and> stderr (main \<lparr>cwd = ''/w'', docs = Some RegularFile, writable = True\<rparr>)
       = [(''Failed:'', Some (ENOTDIR ''/w/docs''))]
   \<and> exit_status (main \<lparr>cwd = ''/w'', docs = Some RegularFile, writable = True\<rparr>) = Some 1"
proof -
  have docsDir: "path_join ''/w'' ''docs'' = ''/w/docs''"
    by (simp add: path_eval)
  have "docs \<lparr>cwd = ''/w'', docs = Some RegularFile, writable = True\<rparr> = Some RegularFile"
    and "\<not> isDirectory RegularFile"
    by simp_all
  from main_docs_not_directory [OF this] show ?thesis
    by (simp add: docsDir)
qed

end
